theory Spec2Isabelle
  imports Main "HOL-Library.Sublist"
begin

section \<open>Identifier extraction (\<^verbatim>\<open>extract_repos_from_text\<close>)\<close>

text \<open>
  A Python \<^verbatim>\<open>str\<close> is modelled as a \<^typ>\<open>string\<close> holding its UTF-8 encoding.
  Every character the extractor looks at is ASCII, so a byte of a multi-byte sequence
  behaves like any other character outside the class \<^verbatim>\<open>[A-Za-z0-9_.-]\<close>.
\<close>

definition repo_char :: "char \<Rightarrow> bool" where
  \<comment> \<open>the character class \<^verbatim>\<open>[A-Za-z0-9_.-]\<close>\<close>
  "repo_char c \<longleftrightarrow>
     c \<in> set ''ABCDEFGHIJKLMNOPQRSTUVWXYZabcdefghijklmnopqrstuvwxyz0123456789_.-''"

definition sep_to_space :: "char \<Rightarrow> char" where
  "sep_to_space c = (if c = CHR '','' \<or> c = CHR 0x0A then CHR '' '' else c)"

definition replace_separators :: "string \<Rightarrow> string" where
  \<comment> \<open>\<^verbatim>\<open>text.replace(',', ' ').replace('\n', ' ')\<close>\<close>
  "replace_separators text = map sep_to_space text"

definition strip_url_prefix :: "string \<Rightarrow> string option" where
  \<comment> \<open>the group \<^verbatim>\<open>https?://github\.com/\<close>: the text left after it, when it is there\<close>
  "strip_url_prefix s =
     (if prefix ''https://github.com/'' s then Some (drop 19 s)
      else if prefix ''http://github.com/'' s then Some (drop 18 s)
      else None)"

definition match_pair :: "string \<Rightarrow> ((string \<times> string) \<times> string) option" where
  \<comment> \<open>\<^verbatim>\<open>([A-Za-z0-9_.-]+)/([A-Za-z0-9_.-]+)\<close> at the head of the text: both groups are
      greedy, and a shorter first group would be followed by a class character, never by
      the slash, so the longest run is the only candidate\<close>
  "match_pair s =
     (let u = takeWhile repo_char s; s1 = dropWhile repo_char s in
      if u = [] then None
      else (case s1 of
              [] \<Rightarrow> None
            | c # s2 \<Rightarrow>
                if c \<noteq> CHR ''/'' then None
                else (let r = takeWhile repo_char s2 in
                      if r = [] then None
                      else Some ((u, r), dropWhile repo_char s2))))"

definition match_here :: "string \<Rightarrow> ((string \<times> string) \<times> string) option" where
  \<comment> \<open>the whole pattern at the head of the text: the optional prefix is tried first,
      and given up when the rest does not match after it\<close>
  "match_here s =
     (case strip_url_prefix s of
        Some rest \<Rightarrow> (case match_pair rest of Some m \<Rightarrow> Some m | None \<Rightarrow> match_pair s)
      | None \<Rightarrow> match_pair s)"

lemma match_pair_shorter:
  assumes "match_pair s = Some (p, rest)"
  shows "length rest < length s"
proof -
  have a: "length (dropWhile repo_char t) \<le> length t" for t
    by (rule length_dropWhile_le)
  from assms obtain s2 where s1: "dropWhile repo_char s = CHR ''/'' # s2"
    and r: "rest = dropWhile repo_char s2"
    by (auto simp: match_pair_def Let_def split: list.splits if_splits)
  have "length rest \<le> length s2" using r a by simp
  also have "length s2 < length (dropWhile repo_char s)" using s1 by simp
  also have "\<dots> \<le> length s" by (rule a)
  finally show ?thesis .
qed

lemma strip_url_prefix_shorter:
  "strip_url_prefix s = Some t \<Longrightarrow> length t \<le> length s"
  by (auto simp: strip_url_prefix_def split: if_splits)

lemma match_here_shorter:
  assumes "match_here s = Some (p, rest)"
  shows "length rest < length s"
proof (cases "strip_url_prefix s")
  case None
  with assms show ?thesis by (simp add: match_here_def match_pair_shorter)
next
  case (Some t)
  show ?thesis
  proof (cases "match_pair t")
    case None
    with Some assms show ?thesis by (simp add: match_here_def match_pair_shorter)
  next
    case (Some m)
    with \<open>strip_url_prefix s = Some t\<close> assms have "match_pair t = Some (p, rest)"
      by (simp add: match_here_def)
    then have "length rest < length t" by (rule match_pair_shorter)
    with strip_url_prefix_shorter [OF \<open>strip_url_prefix s = Some t\<close>] show ?thesis by simp
  qed
qed

function findall :: "string \<Rightarrow> (string \<times> string) list" where
  "findall [] = []"
| "findall (c # cs) =
     (case match_here (c # cs) of
        Some (p, rest) \<Rightarrow> p # findall rest
      | None \<Rightarrow> findall cs)"
  by pat_completeness auto
termination
  by (relation "measure length") (auto dest: match_here_shorter)

definition repo_name :: "string \<times> string \<Rightarrow> string" where
  \<comment> \<open>\<^verbatim>\<open>f"{u}/{r}"\<close>\<close>
  "repo_name p = fst p @ ''/'' @ snd p"

definition extract_repos_from_text :: "string \<Rightarrow> string set" where
  "extract_repos_from_text text = set (map repo_name (findall (replace_separators text)))"

text \<open>
  The words of the specification about identifiers, for stating what extraction does: a
  canonical identifier is an owner and a name, both non-empty and made of class
  characters; it is written bare or as a URL of the hosting provider.
\<close>

definition canonical :: "string \<times> string \<Rightarrow> bool" where
  "canonical p \<longleftrightarrow>
     fst p \<noteq> [] \<and> snd p \<noteq> [] \<and>
     (\<forall>c\<in>set (fst p). repo_char c) \<and> (\<forall>c\<in>set (snd p). repo_char c)"

datatype form = Bare | Http | Https

definition written :: "form \<times> string \<times> string \<Rightarrow> string" where
  "written fp =
     (case fst fp of
        Bare \<Rightarrow> []
      | Http \<Rightarrow> ''http://github.com/''
      | Https \<Rightarrow> ''https://github.com/'') @ repo_name (snd fp)"

section \<open>Library models: JSON values, \<^verbatim>\<open>json.dumps\<close> and \<^verbatim>\<open>json.loads\<close>\<close>

text \<open>
  The exceptions the handlers can meet. \<open>RequestException m\<close> is a transport failure of
  \<^verbatim>\<open>requests\<close> whose \<^verbatim>\<open>str\<close> is \<open>m\<close>; \<open>HTTPError n\<close> is what
  \<^verbatim>\<open>raise_for_status\<close> raises on status \<open>n\<close>; \<open>AttributeError m\<close> carries its
  \<^verbatim>\<open>str\<close> as well, which one handler reports. The other exceptions only end a handler
  and are told apart by their class.
\<close>

datatype exn =
    RequestException string
  | HTTPError nat
  | JSONDecodeError
  | RecursionError
  | KeyError string
  | TypeError
  | AttributeError string
  | ValueError
  | BinasciiError
  | UnicodeDecodeError

text \<open>
  The objects \<^verbatim>\<open>json.loads\<close> builds and \<^verbatim>\<open>json.dumps\<close> writes: \<^verbatim>\<open>None\<close>, a
  \<^verbatim>\<open>bool\<close>, a number (an \<^verbatim>\<open>int\<close> or a \<^verbatim>\<open>float\<close>, held as its \<^verbatim>\<open>repr\<close>, which is
  what the encoder writes for it), a \<^verbatim>\<open>str\<close>, a \<^verbatim>\<open>list\<close>, and a \<^verbatim>\<open>dict\<close> as its items
  in the order of insertion.
\<close>

datatype json =
    JNull
  | JBool bool
  | JNum string
  | JStr string
  | JArr "json list"
  | JObj "(string \<times> json) list"

definition backslash :: char where
  "backslash = CHR 0x5C"

definition dquote :: char where
  "dquote = CHR 0x22"

definition newline :: char where
  "newline = CHR 0x0A"

fun join :: "string \<Rightarrow> string list \<Rightarrow> string" where
  \<comment> \<open>\<^verbatim>\<open>sep.join(xs)\<close>\<close>
  "join sep [] = []"
| "join sep [x] = x"
| "join sep (x # y # ys) = x @ sep @ join sep (y # ys)"

definition hex_digit :: "nat \<Rightarrow> char" where
  "hex_digit n = ''0123456789abcdef'' ! (n mod 16)"

definition hex4 :: "nat \<Rightarrow> string" where
  \<comment> \<open>\<^verbatim>\<open>'{0:04x}'.format(n)\<close> for \<open>n < 0x10000\<close>\<close>
  "hex4 n = [hex_digit (n div 4096), hex_digit (n div 256), hex_digit (n div 16), hex_digit n]"

definition u_escape :: "nat \<Rightarrow> string" where
  \<comment> \<open>the escape of a code point, a surrogate pair above the basic plane\<close>
  "u_escape n =
     (if n < 0x10000 then [backslash, CHR ''u''] @ hex4 n
      else (let v = n - 0x10000 in
            [backslash, CHR ''u''] @ hex4 (0xD800 + v div 1024) @
            [backslash, CHR ''u''] @ hex4 (0xDC00 + v mod 1024)))"

definition escape_ascii_char :: "char \<Rightarrow> string" where
  \<comment> \<open>\<^verbatim>\<open>ESCAPE_DCT\<close> of the encoder, for a character below \<open>0x80\<close>\<close>
  "escape_ascii_char c =
     (if c = backslash then [backslash, backslash]
      else if c = dquote then [backslash, dquote]
      else if c = CHR 0x08 then [backslash, CHR ''b'']
      else if c = CHR 0x0C then [backslash, CHR ''f'']
      else if c = CHR 0x0A then [backslash, CHR ''n'']
      else if c = CHR 0x0D then [backslash, CHR ''r'']
      else if c = CHR 0x09 then [backslash, CHR ''t'']
      else if (of_char c :: nat) < 0x20 \<or> (of_char c :: nat) = 0x7F then u_escape (of_char c)
      else [c])"

definition utf8_tail :: "nat \<Rightarrow> nat" where
  \<comment> \<open>how many continuation bytes follow a lead byte\<close>
  "utf8_tail b = (if b < 0xE0 then 1 else if b < 0xF0 then 2 else 3)"

fun utf8_codepoint :: "nat list \<Rightarrow> nat" where
  "utf8_codepoint [a, b] = (a mod 32) * 64 + b mod 64"
| "utf8_codepoint [a, b, c] = (a mod 16) * 4096 + (b mod 64) * 64 + c mod 64"
| "utf8_codepoint [a, b, c, d] =
     (a mod 8) * 262144 + (b mod 64) * 4096 + (c mod 64) * 64 + d mod 64"
| "utf8_codepoint bs = 0"

fun escape_str :: "string \<Rightarrow> string" where
  \<comment> \<open>the body of \<^verbatim>\<open>py_encode_basestring_ascii\<close>: everything outside printable
      ASCII, the quote and the backslash are escaped\<close>
  "escape_str [] = []"
| "escape_str (c # cs) =
     (if (of_char c :: nat) < 0x80 then escape_ascii_char c @ escape_str cs
      else (let k = utf8_tail (of_char c) in
            u_escape (utf8_codepoint (map of_char (c # take k cs))) @ escape_str (drop k cs)))"

definition encode_str :: "string \<Rightarrow> string" where
  "encode_str s = [dquote] @ escape_str s @ [dquote]"

definition newline_indent :: "nat \<Rightarrow> string" where
  \<comment> \<open>\<^verbatim>\<open>'\n' + ' ' * (2 * level)\<close>\<close>
  "newline_indent level = newline # replicate (2 * level) (CHR '' '')"

fun dumps_at :: "nat \<Rightarrow> json \<Rightarrow> string" where
  \<comment> \<open>the encoder at a nesting level, with \<^verbatim>\<open>indent=2\<close>: the item separator is a
      comma, the key separator a colon and a space\<close>
  "dumps_at l JNull = ''null''"
| "dumps_at l (JBool b) = (if b then ''true'' else ''false'')"
| "dumps_at l (JNum x) = x"
| "dumps_at l (JStr s) = encode_str s"
| "dumps_at l (JArr xs) =
     (if xs = [] then ''[]''
      else ''['' @ newline_indent (Suc l) @
           join ('','' @ newline_indent (Suc l)) (map (dumps_at (Suc l)) xs) @
           newline_indent l @ '']'')"
| "dumps_at l (JObj kvs) =
     (if kvs = [] then ''{}''
      else ''{'' @ newline_indent (Suc l) @
           join ('','' @ newline_indent (Suc l))
             (map (\<lambda>kv. encode_str (fst kv) @ '': '' @ dumps_at (Suc l) (snd kv)) kvs) @
           newline_indent l @ ''}'')"

definition json_dumps_indent2 :: "json \<Rightarrow> string" where
  \<comment> \<open>\<^verbatim>\<open>json.dumps(v, indent=2)\<close>\<close>
  "json_dumps_indent2 v = dumps_at 0 v"

subsection \<open>The decoder\<close>

definition is_ws :: "char \<Rightarrow> bool" where
  \<comment> \<open>\<^verbatim>\<open>WHITESPACE_STR = ' \t\n\r'\<close>\<close>
  "is_ws c \<longleftrightarrow> c = CHR '' '' \<or> c = CHR 0x09 \<or> c = CHR 0x0A \<or> c = CHR 0x0D"

definition skip_ws :: "string \<Rightarrow> string" where
  "skip_ws s = dropWhile is_ws s"

fun index_from :: "nat \<Rightarrow> 'a \<Rightarrow> 'a list \<Rightarrow> nat option" where
  "index_from i x [] = None"
| "index_from i x (y # ys) = (if x = y then Some i else index_from (i + 1) x ys)"

definition index_of :: "'a \<Rightarrow> 'a list \<Rightarrow> nat option" where
  \<comment> \<open>where an element first stands in a list\<close>
  "index_of x xs = index_from 0 x xs"

definition hex_value :: "char \<Rightarrow> nat option" where
  "hex_value c =
     (case index_of c ''0123456789abcdef'' of
        Some n \<Rightarrow> Some n
      | None \<Rightarrow> map_option (\<lambda>n. n + 10) (index_of c ''ABCDEF''))"

fun hex4_value :: "string \<Rightarrow> nat option" where
  \<comment> \<open>the four hexadecimal digits after \<^verbatim>\<open>\u\<close>\<close>
  "hex4_value (a # b # c # d # rest) =
     (case (hex_value a, hex_value b, hex_value c, hex_value d) of
        (Some x, Some y, Some z, Some w) \<Rightarrow> Some (((x * 16 + y) * 16 + z) * 16 + w)
      | _ \<Rightarrow> None)"
| "hex4_value s = None"

definition utf8_encode :: "nat \<Rightarrow> string" where
  \<comment> \<open>the bytes of one code point (a lone surrogate gets its three-byte form)\<close>
  "utf8_encode n =
     (if n < 0x80 then [char_of n]
      else if n < 0x800 then [char_of (0xC0 + n div 64), char_of (0x80 + n mod 64)]
      else if n < 0x10000 then
        [char_of (0xE0 + n div 4096), char_of (0x80 + n div 64 mod 64), char_of (0x80 + n mod 64)]
      else
        [char_of (0xF0 + n div 262144), char_of (0x80 + n div 4096 mod 64),
         char_of (0x80 + n div 64 mod 64), char_of (0x80 + n mod 64)])"

definition scan_u :: "string \<Rightarrow> (string \<times> nat) option" where
  \<comment> \<open>after \<^verbatim>\<open>\u\<close>: the character, and how many characters of the text it took; a high
      surrogate takes the low surrogate escaped right after it\<close>
  "scan_u s =
     (case hex4_value s of
        None \<Rightarrow> None
      | Some hi \<Rightarrow>
          (if 0xD800 \<le> hi \<and> hi \<le> 0xDBFF \<and> prefix [backslash, CHR ''u''] (drop 4 s) then
             (case hex4_value (drop 6 s) of
                None \<Rightarrow> None
              | Some lo \<Rightarrow>
                  if 0xDC00 \<le> lo \<and> lo \<le> 0xDFFF
                  then Some (utf8_encode (0x10000 + (hi - 0xD800) * 1024 + (lo - 0xDC00)), 10)
                  else Some (utf8_encode hi, 4))
           else Some (utf8_encode hi, 4)))"

definition unescape :: "char \<Rightarrow> char option" where
  \<comment> \<open>the table \<^verbatim>\<open>BACKSLASH\<close> of the decoder\<close>
  "unescape c =
     (if c = dquote then Some dquote
      else if c = backslash then Some backslash
      else if c = CHR ''/'' then Some (CHR ''/'')
      else if c = CHR ''b'' then Some (CHR 0x08)
      else if c = CHR ''f'' then Some (CHR 0x0C)
      else if c = CHR ''n'' then Some (CHR 0x0A)
      else if c = CHR ''r'' then Some (CHR 0x0D)
      else if c = CHR ''t'' then Some (CHR 0x09)
      else None)"

definition prepend :: "string \<Rightarrow> exn + (string \<times> string) \<Rightarrow> exn + (string \<times> string)" where
  "prepend cs r = (case r of Inl e \<Rightarrow> Inl e | Inr (s, rest) \<Rightarrow> Inr (cs @ s, rest))"

fun scanstring :: "string \<Rightarrow> exn + (string \<times> string)" where
  \<comment> \<open>the text after an opening quote: the string's value and the text after the closing
      quote; a raw control character is refused (\<^verbatim>\<open>strict=True\<close>)\<close>
  "scanstring [] = Inl JSONDecodeError"
| "scanstring (c # cs) =
     (if c = dquote then Inr ([], cs)
      else if c = backslash then
        (case cs of
           [] \<Rightarrow> Inl JSONDecodeError
         | esc # cs' \<Rightarrow>
             if esc = CHR ''u'' then
               (case scan_u cs' of
                  None \<Rightarrow> Inl JSONDecodeError
                | Some (bytes, k) \<Rightarrow> prepend bytes (scanstring (drop k cs')))
             else
               (case unescape esc of
                  None \<Rightarrow> Inl JSONDecodeError
                | Some ch \<Rightarrow> prepend [ch] (scanstring cs')))
      else if (of_char c :: nat) < 0x20 then Inl JSONDecodeError
      else prepend [c] (scanstring cs))"

definition is_digit :: "char \<Rightarrow> bool" where
  "is_digit c \<longleftrightarrow> c \<in> set ''0123456789''"

definition match_int :: "string \<Rightarrow> (string \<times> string) option" where
  \<comment> \<open>\<^verbatim>\<open>(0|[1-9][0-9]*)\<close>\<close>
  "match_int s =
     (case s of
        [] \<Rightarrow> None
      | c # cs \<Rightarrow>
          if c = CHR ''0'' then Some ([c], cs)
          else if is_digit c then Some (c # takeWhile is_digit cs, dropWhile is_digit cs)
          else None)"

definition match_frac :: "string \<Rightarrow> string \<times> string" where
  \<comment> \<open>\<^verbatim>\<open>(\.[0-9]+)?\<close>\<close>
  "match_frac s =
     (case s of
        c # cs \<Rightarrow>
          if c = CHR ''.'' \<and> takeWhile is_digit cs \<noteq> []
          then (c # takeWhile is_digit cs, dropWhile is_digit cs) else ([], s)
      | [] \<Rightarrow> ([], s))"

definition match_exp :: "string \<Rightarrow> string \<times> string" where
  \<comment> \<open>\<^verbatim>\<open>([eE][-+]?[0-9]+)?\<close>\<close>
  "match_exp s =
     (case s of
        c # cs \<Rightarrow>
          if c = CHR ''e'' \<or> c = CHR ''E'' then
            (let sgn = (case cs of d # ds \<Rightarrow> if d = CHR ''-'' \<or> d = CHR ''+'' then [d] else [] | [] \<Rightarrow> []);
                 ds = drop (length sgn) cs in
             if takeWhile is_digit ds \<noteq> []
             then (c # sgn @ takeWhile is_digit ds, dropWhile is_digit ds) else ([], s))
          else ([], s)
      | [] \<Rightarrow> ([], s))"

definition match_number :: "string \<Rightarrow> (string \<times> string) option" where
  \<comment> \<open>\<^verbatim>\<open>NUMBER_RE\<close>: the text of the number and the text after it\<close>
  "match_number s =
     (let neg = (case s of c # cs \<Rightarrow> if c = CHR ''-'' then [c] else [] | [] \<Rightarrow> []) in
      case match_int (drop (length neg) s) of
        None \<Rightarrow> None
      | Some (i, r1) \<Rightarrow>
          (let (f, r2) = match_frac r1; (x, r3) = match_exp r2 in Some (neg @ i @ f @ x, r3)))"

definition integer_text :: "string \<Rightarrow> bool" where
  \<comment> \<open>a number without fraction and exponent\<close>
  "integer_text x \<longleftrightarrow> (\<forall>c\<in>set x. is_digit c \<or> c = CHR ''-'')"

definition make_number :: "(string \<Rightarrow> string) \<Rightarrow> string \<Rightarrow> json" where
  \<comment> \<open>\<^verbatim>\<open>int(x)\<close> for a number without fraction and exponent (minus zero is zero), else
      \<^verbatim>\<open>float(x)\<close>; the first argument gives what the encoder writes for that float\<close>
  "make_number fl x =
     JNum (if integer_text x then (if x = ''-0'' then ''0'' else x) else fl x)"

definition dict_set :: "('k \<times> 'v) list \<Rightarrow> 'k \<Rightarrow> 'v \<Rightarrow> ('k \<times> 'v) list" where
  \<comment> \<open>\<^verbatim>\<open>d[k] = v\<close>: a new key goes to the end, a known key keeps its place\<close>
  "dict_set kvs k v =
     (if k \<in> fst ` set kvs then map (\<lambda>kv. if fst kv = k then (k, v) else kv) kvs
      else kvs @ [(k, v)])"

fun parse_value :: "(string \<Rightarrow> string) \<Rightarrow> nat \<Rightarrow> string \<Rightarrow> exn + (json \<times> string)"
  and parse_array ::
    "(string \<Rightarrow> string) \<Rightarrow> nat \<Rightarrow> json list \<Rightarrow> string \<Rightarrow> exn + (json \<times> string)"
  and parse_object ::
    "(string \<Rightarrow> string) \<Rightarrow> nat \<Rightarrow> (string \<times> json) list \<Rightarrow> string \<Rightarrow> exn + (json \<times> string)"
where
  "parse_value fl 0 s = Inl RecursionError"
| "parse_value fl (Suc n) s =
     (case s of
        [] \<Rightarrow> Inl JSONDecodeError
      | c # cs \<Rightarrow>
          if c = dquote then
            (case scanstring cs of Inl e \<Rightarrow> Inl e | Inr (str, rest) \<Rightarrow> Inr (JStr str, rest))
          else if c = CHR ''{'' then
            (case skip_ws cs of
               [] \<Rightarrow> Inl JSONDecodeError
             | c' # rest \<Rightarrow> if c' = CHR ''}'' then Inr (JObj [], rest) else parse_object fl n [] (c' # rest))
          else if c = CHR ''['' then
            (case skip_ws cs of
               [] \<Rightarrow> Inl JSONDecodeError
             | c' # rest \<Rightarrow> if c' = CHR '']'' then Inr (JArr [], rest) else parse_array fl n [] (c' # rest))
          else if prefix ''null'' s then Inr (JNull, drop 4 s)
          else if prefix ''true'' s then Inr (JBool True, drop 4 s)
          else if prefix ''false'' s then Inr (JBool False, drop 5 s)
          else
            (case match_number s of
               Some (x, rest) \<Rightarrow> Inr (make_number fl x, rest)
             | None \<Rightarrow>
                 if prefix ''NaN'' s then Inr (JNum ''NaN'', drop 3 s)
                 else if prefix ''Infinity'' s then Inr (JNum ''Infinity'', drop 8 s)
                 else if prefix ''-Infinity'' s then Inr (JNum ''-Infinity'', drop 9 s)
                 else Inl JSONDecodeError))"
| "parse_array fl 0 acc s = Inl RecursionError"
| "parse_array fl (Suc n) acc s =
     (case parse_value fl n s of
        Inl e \<Rightarrow> Inl e
      | Inr (v, rest) \<Rightarrow>
          (case skip_ws rest of
             [] \<Rightarrow> Inl JSONDecodeError
           | c # cs \<Rightarrow>
               if c = CHR '']'' then Inr (JArr (acc @ [v]), cs)
               else if c = CHR '','' then parse_array fl n (acc @ [v]) (skip_ws cs)
               else Inl JSONDecodeError))"
| "parse_object fl 0 acc s = Inl RecursionError"
| "parse_object fl (Suc n) acc s =
     (case s of
        [] \<Rightarrow> Inl JSONDecodeError
      | q # s0 \<Rightarrow>
          if q \<noteq> dquote then Inl JSONDecodeError
          else
            (case scanstring s0 of
               Inl e \<Rightarrow> Inl e
             | Inr (key, s1) \<Rightarrow>
                 (case skip_ws s1 of
                    [] \<Rightarrow> Inl JSONDecodeError
                  | c # s2 \<Rightarrow>
                      if c \<noteq> CHR '':'' then Inl JSONDecodeError
                      else
                        (case parse_value fl n (skip_ws s2) of
                           Inl e \<Rightarrow> Inl e
                         | Inr (v, s3) \<Rightarrow>
                             (case skip_ws s3 of
                                [] \<Rightarrow> Inl JSONDecodeError
                              | d # s4 \<Rightarrow>
                                  if d = CHR ''}'' then Inr (JObj (dict_set acc key v), s4)
                                  else if d = CHR '','' then parse_object fl n (dict_set acc key v) (skip_ws s4)
                                  else Inl JSONDecodeError)))))"

definition json_loads :: "(string \<Rightarrow> string) \<Rightarrow> string \<Rightarrow> exn + json" where
  \<comment> \<open>\<^verbatim>\<open>json.loads(s)\<close>: one value, white space around it, nothing after it. The
      recursion is bounded by the length of the text, which no nesting exceeds.\<close>
  "json_loads fl s =
     (case parse_value fl (Suc (length s)) (skip_ws s) of
        Inl e \<Rightarrow> Inl e
      | Inr (v, rest) \<Rightarrow> if skip_ws rest = [] then Inr v else Inl JSONDecodeError)"

definition dict_get :: "(string \<times> json) list \<Rightarrow> string \<Rightarrow> json option" where
  \<comment> \<open>a key's value in a \<^verbatim>\<open>dict\<close> built from pairs: the last pair of the key wins\<close>
  "dict_get kvs k = map_of (rev kvs) k"

subsection \<open>What the handlers do with a decoded object\<close>

definition squote :: char where
  "squote = CHR 0x27"

definition type_name :: "json \<Rightarrow> string" where
  \<comment> \<open>\<^verbatim>\<open>type(v).__name__\<close>\<close>
  "type_name v =
     (case v of
        JNull \<Rightarrow> ''NoneType''
      | JBool b \<Rightarrow> ''bool''
      | JNum x \<Rightarrow> if integer_text x then ''int'' else ''float''
      | JStr s \<Rightarrow> ''str''
      | JArr xs \<Rightarrow> ''list''
      | JObj kvs \<Rightarrow> ''dict'')"

definition no_attribute :: "json \<Rightarrow> string \<Rightarrow> exn" where
  \<comment> \<open>what a method raises on an object that has none of that name\<close>
  "no_attribute v name =
     AttributeError
       ([squote] @ type_name v @ [squote] @ '' object has no attribute '' @
        [squote] @ name @ [squote])"

definition contains :: "json \<Rightarrow> string \<Rightarrow> exn + bool" where
  \<comment> \<open>\<^verbatim>\<open>s in v\<close> for a \<^verbatim>\<open>str\<close> \<open>s\<close>: an element of a list (a \<^verbatim>\<open>str\<close> equals only a
      \<^verbatim>\<open>str\<close>), a part of a string, a key of a \<^verbatim>\<open>dict\<close>; nothing else is iterable\<close>
  "contains v s =
     (case v of
        JArr xs \<Rightarrow> Inr (JStr s \<in> set xs)
      | JStr t \<Rightarrow> Inr (sublist s t)
      | JObj kvs \<Rightarrow> Inr (s \<in> fst ` set kvs)
      | _ \<Rightarrow> Inl TypeError)"

definition list_append :: "json \<Rightarrow> string \<Rightarrow> exn + json" where
  \<comment> \<open>\<^verbatim>\<open>v.append(s)\<close>: the object after the call\<close>
  "list_append v s =
     (case v of JArr xs \<Rightarrow> Inr (JArr (xs @ [JStr s])) | _ \<Rightarrow> Inl (no_attribute v ''append''))"

definition list_remove :: "json \<Rightarrow> string \<Rightarrow> exn + json" where
  \<comment> \<open>\<^verbatim>\<open>v.remove(s)\<close>: the object after the call, the first occurrence taken out\<close>
  "list_remove v s =
     (case v of
        JArr xs \<Rightarrow> if JStr s \<in> set xs then Inr (JArr (remove1 (JStr s) xs)) else Inl ValueError
      | _ \<Rightarrow> Inl (no_attribute v ''remove''))"

abbreviation str_list :: "string list \<Rightarrow> json" where
  \<comment> \<open>a list of strings\<close>
  "str_list xs \<equiv> JArr (map JStr xs)"

section \<open>Library models: \<^verbatim>\<open>base64\<close> and UTF-8\<close>

definition b64_char :: "nat \<Rightarrow> char" where
  \<comment> \<open>the alphabet \<^verbatim>\<open>A-Z a-z 0-9 + /\<close>, by position\<close>
  "b64_char n =
     (let k = n mod 64 in
      if k < 26 then char_of (k + 65)
      else if k < 52 then char_of (k + 71)
      else if k < 62 then char_of (k - 4)
      else if k = 62 then CHR ''+'' else CHR ''/'')"

definition b64_index :: "char \<Rightarrow> nat option" where
  \<comment> \<open>the position of a character in the alphabet\<close>
  "b64_index c =
     (let n = (of_char c :: nat) in
      if 65 \<le> n \<and> n \<le> 90 then Some (n - 65)
      else if 97 \<le> n \<and> n \<le> 122 then Some (n - 71)
      else if 48 \<le> n \<and> n \<le> 57 then Some (n + 4)
      else if c = CHR ''+'' then Some 62
      else if c = CHR ''/'' then Some 63
      else None)"

fun b64encode :: "string \<Rightarrow> string" where
  \<comment> \<open>\<^verbatim>\<open>base64.b64encode\<close>: the 24 bits of three bytes are four characters of six bits;
      a last group of one or two bytes is filled with zero bits and padded\<close>
  "b64encode [] = []"
| "b64encode [a] =
     (let x = (of_char a :: nat) in
      [b64_char (x div 4), b64_char ((x mod 4) * 16), CHR ''='', CHR ''=''])"
| "b64encode [a, b] =
     (let x = (of_char a :: nat); y = (of_char b :: nat) in
      [b64_char (x div 4), b64_char ((x mod 4) * 16 + y div 16), b64_char ((y mod 16) * 4),
       CHR ''=''])"
| "b64encode (a # b # c # rest) =
     (let x = (of_char a :: nat); y = (of_char b :: nat); z = (of_char c :: nat) in
      [b64_char (x div 4), b64_char ((x mod 4) * 16 + y div 16),
       b64_char ((y mod 16) * 4 + z div 64), b64_char (z mod 64)] @ b64encode rest)"

definition emit :: "nat \<Rightarrow> exn + string \<Rightarrow> exn + string" where
  "emit n r = (case r of Inl e \<Rightarrow> Inl e | Inr bs \<Rightarrow> Inr (char_of n # bs))"

fun a2b_base64 :: "string \<Rightarrow> nat \<Rightarrow> nat \<Rightarrow> nat \<Rightarrow> exn + string" where
  \<comment> \<open>the decoding loop of \<^verbatim>\<open>binascii.a2b_base64\<close> when not strict, with its state
      \<^verbatim>\<open>quad_pos\<close>, \<^verbatim>\<open>leftchar\<close>, \<^verbatim>\<open>pads\<close>: a character outside the alphabet is
      skipped, padding that completes a group ends the input, padding elsewhere is skipped,
      and input that ends inside a group is an error\<close>
  "a2b_base64 [] quad_pos leftchar pads = (if quad_pos \<noteq> 0 then Inl BinasciiError else Inr [])"
| "a2b_base64 (c # cs) quad_pos leftchar pads =
     (if c = CHR ''='' then
        (if quad_pos \<ge> 2 \<and> quad_pos + (pads + 1) \<ge> 4 then Inr []
         else a2b_base64 cs quad_pos leftchar (if quad_pos \<ge> 2 then pads + 1 else pads))
      else
        (case b64_index c of
           None \<Rightarrow> a2b_base64 cs quad_pos leftchar pads
         | Some v \<Rightarrow>
             if quad_pos = 0 then a2b_base64 cs 1 v 0
             else if quad_pos = 1 then emit (leftchar * 4 + v div 16) (a2b_base64 cs 2 (v mod 16) 0)
             else if quad_pos = 2 then emit (leftchar * 16 + v div 4) (a2b_base64 cs 3 (v mod 4) 0)
             else emit (leftchar * 64 + v) (a2b_base64 cs 0 0 0)))"

definition b64decode :: "string \<Rightarrow> exn + string" where
  \<comment> \<open>\<^verbatim>\<open>base64.b64decode(s)\<close> of a \<^verbatim>\<open>str\<close>: it must be ASCII\<close>
  "b64decode s =
     (if \<exists>c \<in> set s. (of_char c :: nat) \<ge> 0x80 then Inl ValueError else a2b_base64 s 0 0 0)"

definition is_cont :: "nat \<Rightarrow> bool" where
  "is_cont b \<longleftrightarrow> 0x80 \<le> b \<and> b \<le> 0xBF"

fun utf8_valid :: "nat list \<Rightarrow> bool" where
  "utf8_valid [] = True"
| "utf8_valid (a # rest) =
     (if a < 0x80 then utf8_valid rest
      else if 0xC2 \<le> a \<and> a \<le> 0xDF then
        (case rest of b # r \<Rightarrow> is_cont b \<and> utf8_valid r | _ \<Rightarrow> False)
      else if 0xE0 \<le> a \<and> a \<le> 0xEF then
        (case rest of
           b # c # r \<Rightarrow>
             (if a = 0xE0 then 0xA0 \<le> b \<and> b \<le> 0xBF
              else if a = 0xED then 0x80 \<le> b \<and> b \<le> 0x9F
              else is_cont b) \<and> is_cont c \<and> utf8_valid r
         | _ \<Rightarrow> False)
      else if 0xF0 \<le> a \<and> a \<le> 0xF4 then
        (case rest of
           b # c # d # r \<Rightarrow>
             (if a = 0xF0 then 0x90 \<le> b \<and> b \<le> 0xBF
              else if a = 0xF4 then 0x80 \<le> b \<and> b \<le> 0x8F
              else is_cont b) \<and> is_cont c \<and> is_cont d \<and> utf8_valid r
         | _ \<Rightarrow> False)
      else False)"

definition bytes_decode :: "string \<Rightarrow> exn + string" where
  \<comment> \<open>\<^verbatim>\<open>bytes.decode()\<close>: the bytes are the model's string when they are valid UTF-8\<close>
  "bytes_decode bs = (if utf8_valid (map of_char bs) then Inr bs else Inl UnicodeDecodeError)"

definition str_encode :: "string \<Rightarrow> string" where
  \<comment> \<open>\<^verbatim>\<open>str.encode()\<close>: the model's string is the UTF-8 encoding already\<close>
  "str_encode s = s"

section \<open>The environment: configuration, HTTP and the chat\<close>

record response =
  status_code :: nat
  body :: "json option"  \<comment> \<open>what \<^verbatim>\<open>r.json()\<close> parses; \<open>None\<close> when the body is not JSON\<close>

record payload =
  payload_message :: string
  payload_content :: string
  payload_sha :: json  \<comment> \<open>a string, or \<open>JNull\<close> for \<^verbatim>\<open>None\<close>\<close>

type_synonym headers = "(string \<times> string) list"

text \<open>
  Everything outside the program: the configuration read at start-up, what the network
  answers, the order in which the interpreter iterates over a \<^verbatim>\<open>set\<close>, and its
  floating-point numbers (\<open>float_repr x\<close> is what the JSON encoder writes for
  \<^verbatim>\<open>float(x)\<close>). A request either raises (\<open>Inl\<close>, with the exception's \<^verbatim>\<open>str\<close>) or
  gives a response. One handler sends at most one request to each address, so an answer
  per address is general.
\<close>

record env =
  GITHUB_OWNER :: string
  GITHUB_REPO :: string
  GITHUB_TOKEN :: string
  ADMIN_ID :: int
  http_get :: "string \<Rightarrow> headers \<Rightarrow> string + response"
  http_put :: "string \<Rightarrow> headers \<Rightarrow> payload \<Rightarrow> string + response"
  set_iter :: "string set \<Rightarrow> string list"
  float_repr :: "string \<Rightarrow> string"

text \<open>The effects a handler has on the outside, in the order it has them.\<close>

datatype call =
    HttpGet string headers
  | HttpPut string headers payload
  | ReplyText string

definition is_write :: "call \<Rightarrow> bool" where
  "is_write c = (case c of HttpPut u h p \<Rightarrow> True | _ \<Rightarrow> False)"

definition is_request :: "call \<Rightarrow> bool" where
  "is_request c = (case c of ReplyText m \<Rightarrow> False | _ \<Rightarrow> True)"

definition iterates :: "env \<Rightarrow> string set \<Rightarrow> bool" where
  \<comment> \<open>iterating over a set visits each of its elements once, in some order\<close>
  "iterates e S \<longleftrightarrow> set (set_iter e S) = S \<and> distinct (set_iter e S)"

definition DATA_PATH :: string where
  "DATA_PATH = ''data/tracked.json''"

definition github_headers :: "env \<Rightarrow> headers" where
  "github_headers e = [(''Authorization'', ''token '' @ GITHUB_TOKEN e)]"

definition github_file_url :: "env \<Rightarrow> string" where
  "github_file_url e =
     ''https://api.github.com/repos/'' @ GITHUB_OWNER e @ ''/'' @ GITHUB_REPO e @
     ''/contents/'' @ DATA_PATH"

definition raise_for_status :: "response \<Rightarrow> exn option" where
  \<comment> \<open>\<^verbatim>\<open>requests\<close>: a client error (4xx) or a server error (5xx) raises\<close>
  "raise_for_status r =
     (if 400 \<le> status_code r \<and> status_code r < 600 then Some (HTTPError (status_code r))
      else None)"

definition ok :: "response \<Rightarrow> bool" where
  \<comment> \<open>\<^verbatim>\<open>r.ok\<close>: whether \<^verbatim>\<open>raise_for_status\<close> would not raise\<close>
  "ok r = (case raise_for_status r of None \<Rightarrow> True | Some ex \<Rightarrow> False)"

definition response_json :: "response \<Rightarrow> exn + json" where
  \<comment> \<open>\<^verbatim>\<open>r.json()\<close>\<close>
  "response_json r = (case body r of None \<Rightarrow> Inl JSONDecodeError | Some v \<Rightarrow> Inr v)"

definition getitem :: "json \<Rightarrow> string \<Rightarrow> exn + json" where
  \<comment> \<open>\<^verbatim>\<open>v[key]\<close> with a string key\<close>
  "getitem v k =
     (case v of
        JObj kvs \<Rightarrow> (case dict_get kvs k of None \<Rightarrow> Inl (KeyError k) | Some x \<Rightarrow> Inr x)
      | _ \<Rightarrow> Inl TypeError)"

definition then_do :: "exn + 'a \<Rightarrow> ('a \<Rightarrow> exn + 'b) \<Rightarrow> exn + 'b" where
  \<comment> \<open>the next statement runs when the one before it did not raise\<close>
  "then_do r f = (case r of Inl ex \<Rightarrow> Inl ex | Inr x \<Rightarrow> f x)"

section \<open>The registry store (\<^verbatim>\<open>load_tracked\<close>, \<^verbatim>\<open>save_tracked\<close>)\<close>

definition str_concat :: "json \<Rightarrow> string \<Rightarrow> exn + string" where
  \<comment> \<open>\<^verbatim>\<open>v + '...'\<close>: defined for a string\<close>
  "str_concat v t = (case v of JStr s \<Rightarrow> Inr (s @ t) | _ \<Rightarrow> Inl TypeError)"

definition get_repos :: "json \<Rightarrow> exn + json" where
  \<comment> \<open>\<^verbatim>\<open>data.get("repos", [])\<close>: whatever stands under the key, the empty list without
      the key; only a \<^verbatim>\<open>dict\<close> has the method\<close>
  "get_repos data =
     (case data of
        JObj kvs \<Rightarrow> Inr (case dict_get kvs ''repos'' of None \<Rightarrow> JArr [] | Some v \<Rightarrow> v)
      | _ \<Rightarrow> Inl (no_attribute data ''get''))"

definition decode_document :: "(string \<Rightarrow> string) \<Rightarrow> json \<Rightarrow> exn + json" where
  \<comment> \<open>\<^verbatim>\<open>json.loads(b64decode(content["content"] + '===').decode())\<close>\<close>
  "decode_document fl resp =
     then_do (getitem resp ''content'') (\<lambda>c.
     then_do (str_concat c ''==='') (\<lambda>padded.
     then_do (b64decode padded) (\<lambda>raw.
     then_do (bytes_decode raw) (\<lambda>text.
     json_loads fl text))))"

definition load_tracked :: "env \<Rightarrow> call list \<times> (exn + json \<times> json)" where
  \<comment> \<open>the list read and its token; nothing checks what the document holds\<close>
  "load_tracked e =
     (let url = github_file_url e in
      ([HttpGet url (github_headers e)],
       case http_get e url (github_headers e) of
         Inl m \<Rightarrow> Inl (RequestException m)
       | Inr r \<Rightarrow>
           if status_code r = 404 then Inr (JArr [], JNull)
           else
             (case raise_for_status r of
                Some ex \<Rightarrow> Inl ex
              | None \<Rightarrow>
                  then_do (response_json r) (\<lambda>resp.
                  then_do (decode_document (float_repr e) resp) (\<lambda>data.
                  then_do (getitem resp ''sha'') (\<lambda>sha.
                  then_do (get_repos data) (\<lambda>repos.
                  Inr (repos, sha))))))))"

definition registry_document :: "json \<Rightarrow> json" where
  \<comment> \<open>\<^verbatim>\<open>{"repos": repos}\<close>\<close>
  "registry_document repos = JObj [(''repos'', repos)]"

definition save_payload :: "json \<Rightarrow> json \<Rightarrow> payload" where
  "save_payload repos sha =
     (let new_data = json_dumps_indent2 (registry_document repos) in
      \<lparr>payload_message = ''Bot update tracked repos'',
       payload_content = b64encode (str_encode new_data),
       payload_sha = sha\<rparr>)"

definition save_tracked :: "env \<Rightarrow> json \<Rightarrow> json \<Rightarrow> call list \<times> (exn + json)" where
  "save_tracked e repos sha =
     (let url = github_file_url e; p = save_payload repos sha in
      ([HttpPut url (github_headers e) p],
       case http_put e url (github_headers e) p of
         Inl m \<Rightarrow> Inl (RequestException m)
       | Inr r \<Rightarrow>
           (case raise_for_status r of
              Some ex \<Rightarrow> Inl ex
            | None \<Rightarrow>
                then_do (response_json r) (\<lambda>resp.
                then_do (getitem resp ''content'') (\<lambda>c.
                getitem c ''sha'')))))"

section \<open>The validator (\<^verbatim>\<open>validate_repo_exists\<close>)\<close>

definition repo_url :: "string \<Rightarrow> string" where
  "repo_url repo = ''https://api.github.com/repos/'' @ repo"

definition validate_repo_exists :: "env \<Rightarrow> string \<Rightarrow> call list \<times> (exn + bool)" where
  "validate_repo_exists e repo =
     (let url = repo_url repo in
      ([HttpGet url []],
       case http_get e url [] of
         Inl m \<Rightarrow> Inl (RequestException m)
       | Inr r \<Rightarrow> Inr (ok r)))"

section \<open>The handlers\<close>

text \<open>
  A handler's result is the list of its effects and the exception it ends with, if any.
  The signs that open the messages are written as their UTF-8 bytes.
\<close>

definition CROSS_MARK :: string where
  "CROSS_MARK = [CHR 0xE2, CHR 0x9D, CHR 0x8C]"

definition INFORMATION :: string where
  "INFORMATION = [CHR 0xE2, CHR 0x84, CHR 0xB9, CHR 0xEF, CHR 0xB8, CHR 0x8F]"

definition EXCLAMATION :: string where
  "EXCLAMATION = [CHR 0xE2, CHR 0x9D, CHR 0x97]"

definition WARNING :: string where
  "WARNING = [CHR 0xE2, CHR 0x9A, CHR 0xA0, CHR 0xEF, CHR 0xB8, CHR 0x8F]"

definition CHECK_MARK :: string where
  "CHECK_MARK = [CHR 0xE2, CHR 0x9C, CHR 0x85]"

definition NEXT_TRACK :: string where
  "NEXT_TRACK = [CHR 0xE2, CHR 0x8F, CHR 0xAD]"

definition BALLOT_BOX :: string where
  "BALLOT_BOX = [CHR 0xE2, CHR 0x98, CHR 0x91, CHR 0xEF, CHR 0xB8, CHR 0x8F]"

definition no_valid_message :: string where
  "no_valid_message =
     EXCLAMATION @ '' No valid repositories found. Please use the format username/repo or paste a full GitHub repo link.''"

definition too_many_message :: string where
  "too_many_message =
     WARNING @ '' Too many repos in one message (max 20 at a time). Please send in smaller batches.''"

definition only_admin_message :: string where
  "only_admin_message = CROSS_MARK @ '' Only admin can clear all repos!''"

definition cleared_message :: string where
  "cleared_message = BALLOT_BOX @ '' All repos cleared.''"

definition section_text :: "string \<Rightarrow> string list \<Rightarrow> string" where
  \<comment> \<open>a heading and its lines, or nothing for an empty list\<close>
  "section_text heading xs = (if xs \<noteq> [] then heading @ join [newline] xs else [])"

definition or_else :: "string \<Rightarrow> string \<Rightarrow> string" where
  \<comment> \<open>\<^verbatim>\<open>msg or default\<close>\<close>
  "or_else msg dflt = (if msg \<noteq> [] then msg else dflt)"

definition str_of :: "exn \<Rightarrow> string" where
  \<comment> \<open>\<^verbatim>\<open>str(e)\<close> of what the statements under the \<^verbatim>\<open>try\<close> raise: the request its
      failure, the \<^verbatim>\<open>append\<close> that the object has no such method\<close>
  "str_of ex = (case ex of RequestException m \<Rightarrow> m | AttributeError m \<Rightarrow> m | _ \<Rightarrow> [])"

definition failed_entry :: "string \<Rightarrow> exn \<Rightarrow> string" where
  \<comment> \<open>\<^verbatim>\<open>f"{repo} (error: {str(e)})"\<close>\<close>
  "failed_entry repo ex = repo @ '' (error: '' @ str_of ex @ '')''"

definition add_message :: "string list \<Rightarrow> string list \<Rightarrow> string list \<Rightarrow> string" where
  "add_message added skipped failed =
     or_else
       (section_text (CHECK_MARK @ '' Added:'' @ [newline]) added @
        section_text ([newline] @ NEXT_TRACK @ '' Already tracking:'' @ [newline]) skipped @
        section_text ([newline] @ CROSS_MARK @ '' Invalid or inaccessible:'' @ [newline]) failed)
       ''No new repositories added.''"

definition remove_message :: "string list \<Rightarrow> string list \<Rightarrow> string" where
  "remove_message actually_removed not_found =
     or_else
       (section_text (CROSS_MARK @ '' Removed:'' @ [newline]) actually_removed @
        section_text ([newline] @ INFORMATION @ '' Not tracked:'' @ [newline]) not_found)
       ''Nothing to remove.''"

type_synonym add_state = "json \<times> string list \<times> string list \<times> string list \<times> call list"

fun add_loop :: "env \<Rightarrow> string list \<Rightarrow> add_state \<Rightarrow> call list \<times> exn + add_state" where
  \<comment> \<open>the loop of \<^verbatim>\<open>process_repo_addition\<close> over the candidates, on the object read
      and the three outcome lists; the calls made are collected. The membership test
      stands outside the \<^verbatim>\<open>try\<close> and ends the loop when it raises; what the validation
      or the \<^verbatim>\<open>append\<close> raises is caught.\<close>
  "add_loop e [] st = Inr st"
| "add_loop e (repo # rest) (repos, added, skipped, failed, calls) =
     (case contains repos repo of
        Inl ex \<Rightarrow> Inl (calls, ex)
      | Inr True \<Rightarrow> add_loop e rest (repos, added, skipped @ [repo], failed, calls)
      | Inr False \<Rightarrow>
          (case validate_repo_exists e repo of
             (l, Inr exists) \<Rightarrow>
               if exists then
                 (case list_append repos repo of
                    Inr repos' \<Rightarrow>
                      add_loop e rest (repos', added @ [repo], skipped, failed, calls @ l)
                  | Inl ex \<Rightarrow>
                      add_loop e rest
                        (repos, added, skipped, failed @ [failed_entry repo ex], calls @ l))
               else add_loop e rest (repos, added, skipped, failed @ [repo], calls @ l)
           | (l, Inl ex) \<Rightarrow>
               add_loop e rest (repos, added, skipped, failed @ [failed_entry repo ex], calls @ l)))"

definition save_if :: "bool \<Rightarrow> env \<Rightarrow> json \<Rightarrow> json \<Rightarrow> call list \<times> exn option" where
  \<comment> \<open>\<^verbatim>\<open>if changed: save_tracked(repos, sha)\<close>; the token returned is dropped\<close>
  "save_if changed e repos sha =
     (if changed
      then (case save_tracked e repos sha of (l, Inl ex) \<Rightarrow> (l, Some ex) | (l, Inr t) \<Rightarrow> (l, None))
      else ([], None))"

definition process_repo_addition :: "env \<Rightarrow> string \<Rightarrow> call list \<times> exn option" where
  "process_repo_addition e text =
     (let repos_to_check = extract_repos_from_text text in
      if repos_to_check = {} then ([ReplyText no_valid_message], None)
      else if card repos_to_check > 20 then ([ReplyText too_many_message], None)
      else
        (case load_tracked e of
           (l0, Inl ex) \<Rightarrow> (l0, Some ex)
         | (l0, Inr (repos0, sha)) \<Rightarrow>
             (case add_loop e (set_iter e repos_to_check) (repos0, [], [], [], l0) of
                Inl (calls, ex) \<Rightarrow> (calls, Some ex)
              | Inr (repos, added, skipped, failed, calls) \<Rightarrow>
                  (case save_if (added \<noteq> []) e repos sha of
                     (l1, Some ex) \<Rightarrow> (calls @ l1, Some ex)
                   | (l1, None) \<Rightarrow>
                       (calls @ l1 @ [ReplyText (add_message added skipped failed)], None)))))"

definition any_message :: "env \<Rightarrow> string \<Rightarrow> call list \<times> exn option" where
  \<comment> \<open>free text; a command is left to its own handler\<close>
  "any_message e text =
     (if prefix ''/'' text then ([], None) else process_repo_addition e text)"

definition add_cmd :: "env \<Rightarrow> string list \<Rightarrow> call list \<times> exn option" where
  "add_cmd e args =
     (if args = [] then ([ReplyText ''Usage: /add <repo(s) or links>''], None)
      else process_repo_addition e (join '' '' args))"

fun remove_loop ::
  "string list \<Rightarrow> json \<times> string list \<times> string list \<Rightarrow>
   exn + json \<times> string list \<times> string list" where
  \<comment> \<open>the loop of \<^verbatim>\<open>remove_cmd\<close>, on the object read and the two outcome lists; what
      the membership test or the \<^verbatim>\<open>remove\<close> raises ends it\<close>
  "remove_loop [] st = Inr st"
| "remove_loop (repo # rest) (repos, actually_removed, not_found) =
     (case contains repos repo of
        Inl ex \<Rightarrow> Inl ex
      | Inr True \<Rightarrow>
          (case list_remove repos repo of
             Inl ex \<Rightarrow> Inl ex
           | Inr repos' \<Rightarrow> remove_loop rest (repos', actually_removed @ [repo], not_found))
      | Inr False \<Rightarrow> remove_loop rest (repos, actually_removed, not_found @ [repo]))"

definition remove_cmd :: "env \<Rightarrow> string list \<Rightarrow> call list \<times> exn option" where
  "remove_cmd e args =
     (if args = [] then ([ReplyText ''Usage: /remove <repo or link>''], None)
      else
        (let repos_to_remove = extract_repos_from_text (join '' '' args) in
         if repos_to_remove = {} then
           ([ReplyText ''No valid repositories recognized for removal. Please check the format (username/repo or link).''],
            None)
         else
           (case load_tracked e of
              (l0, Inl ex) \<Rightarrow> (l0, Some ex)
            | (l0, Inr (repos0, sha)) \<Rightarrow>
                (case remove_loop (set_iter e repos_to_remove) (repos0, [], []) of
                   Inl ex \<Rightarrow> (l0, Some ex)
                 | Inr (repos, actually_removed, not_found) \<Rightarrow>
                     (case save_if (actually_removed \<noteq> []) e repos sha of
                        (l1, Some ex) \<Rightarrow> (l0 @ l1, Some ex)
                      | (l1, None) \<Rightarrow>
                          (l0 @ l1 @ [ReplyText (remove_message actually_removed not_found)],
                           None))))))"

definition clearall_cmd :: "env \<Rightarrow> int \<Rightarrow> call list \<times> exn option" where
  \<comment> \<open>the second argument is \<^verbatim>\<open>update.effective_user.id\<close>; what the read returns
      as the list is dropped\<close>
  "clearall_cmd e user_id =
     (if user_id \<noteq> ADMIN_ID e then ([ReplyText only_admin_message], None)
      else
        (case load_tracked e of
           (l0, Inl ex) \<Rightarrow> (l0, Some ex)
         | (l0, Inr (repos0, sha)) \<Rightarrow>
             (case save_tracked e (JArr []) sha of
                (l1, Inl ex) \<Rightarrow> (l0 @ l1, Some ex)
              | (l1, Inr t) \<Rightarrow> (l0 @ l1 @ [ReplyText cleared_message], None))))"

section \<open>The outcomes, in the words of the specification\<close>

text \<open>
  What the specification says of one candidate read against a registry, and the lists of
  outcomes of a batch that follow from it. The claims compare the handlers' loops with
  these.
\<close>

definition validation :: "env \<Rightarrow> string \<Rightarrow> exn + bool" where
  \<comment> \<open>what the validator says of a candidate: it raises, or answers\<close>
  "validation e repo = snd (validate_repo_exists e repo)"

datatype outcome = Added | Already_tracked | Failed | Removed | Not_tracked

definition add_outcome :: "env \<Rightarrow> string list \<Rightarrow> string \<Rightarrow> outcome" where
  "add_outcome e registry c =
     (if c \<in> set registry then Already_tracked
      else if validation e c = Inr True then Added
      else Failed)"

definition remove_outcome :: "string list \<Rightarrow> string \<Rightarrow> outcome" where
  "remove_outcome registry c = (if c \<in> set registry then Removed else Not_tracked)"

definition failure_report :: "env \<Rightarrow> string \<Rightarrow> string" where
  \<comment> \<open>how a failed candidate is listed: with the error when the validation raised\<close>
  "failure_report e repo =
     (case validation e repo of Inl ex \<Rightarrow> failed_entry repo ex | Inr b \<Rightarrow> repo)"

definition spec_added :: "env \<Rightarrow> string list \<Rightarrow> string list \<Rightarrow> string list" where
  "spec_added e registry cands = filter (\<lambda>c. add_outcome e registry c = Added) cands"

definition spec_already_tracked :: "env \<Rightarrow> string list \<Rightarrow> string list \<Rightarrow> string list" where
  "spec_already_tracked e registry cands =
     filter (\<lambda>c. add_outcome e registry c = Already_tracked) cands"

definition spec_failed :: "env \<Rightarrow> string list \<Rightarrow> string list \<Rightarrow> string list" where
  "spec_failed e registry cands =
     map (failure_report e) (filter (\<lambda>c. add_outcome e registry c = Failed) cands)"

definition validation_calls :: "string list \<Rightarrow> string list \<Rightarrow> call list" where
  \<comment> \<open>one lookup for each candidate outside the registry, in the order of the batch\<close>
  "validation_calls registry cands =
     map (\<lambda>c. HttpGet (repo_url c) []) (filter (\<lambda>c. c \<notin> set registry) cands)"

definition confirmed :: "env \<Rightarrow> string \<Rightarrow> bool" where
  "confirmed e repo \<longleftrightarrow> validation e repo = Inr True"

definition spec_removed :: "string list \<Rightarrow> string list \<Rightarrow> string list" where
  "spec_removed registry cands = filter (\<lambda>c. remove_outcome registry c = Removed) cands"

definition spec_not_tracked :: "string list \<Rightarrow> string list \<Rightarrow> string list" where
  "spec_not_tracked registry cands = filter (\<lambda>c. remove_outcome registry c = Not_tracked) cands"

definition spec_remaining :: "string list \<Rightarrow> string list \<Rightarrow> string list" where
  \<comment> \<open>the registry with one occurrence of each removed candidate taken out\<close>
  "spec_remaining registry cands = fold remove1 (spec_removed registry cands) registry"

text \<open>
  The identifiers of the specification are ASCII; the round trip through the store is
  stated for lists of ASCII strings.
\<close>

definition ascii :: "string \<Rightarrow> bool" where
  "ascii s \<longleftrightarrow> (\<forall>c\<in>set s. (of_char c :: nat) < 128)"

section \<open>An environment for the examples\<close>

text \<open>
  The configuration is fixed; the store holds the registry with the one identifier
  \<^verbatim>\<open>a/b\<close> under the token \<^verbatim>\<open>v1\<close>; the provider knows \<^verbatim>\<open>c/d\<close>, fails on \<^verbatim>\<open>g/h\<close>
  and answers 404 for every other repository; a write is accepted.
\<close>

definition sample_env ::
  "(string \<Rightarrow> headers \<Rightarrow> string + response) \<Rightarrow>
   (string \<Rightarrow> headers \<Rightarrow> payload \<Rightarrow> string + response) \<Rightarrow>
   (string set \<Rightarrow> string list) \<Rightarrow> env" where
  "sample_env g p it =
     \<lparr>GITHUB_OWNER = ''owner'', GITHUB_REPO = ''tracker'', GITHUB_TOKEN = ''secret'',
      ADMIN_ID = 123456, http_get = g, http_put = p, set_iter = it, float_repr = (\<lambda>x. x)\<rparr>"

definition sample_document :: json where
  \<comment> \<open>the answer of the store: the content is the base64 text of the document
      with the one identifier \<^verbatim>\<open>a/b\<close>\<close>
  "sample_document =
     JObj [(''content'', JStr ''ewogICJyZXBvcyI6IFsKICAgICJhL2IiCiAgXQp9''), (''sha'', JStr ''v1'')]"

definition sample_get :: "string \<Rightarrow> headers \<Rightarrow> string + response" where
  "sample_get url h =
     (if url = ''https://api.github.com/repos/owner/tracker/contents/data/tracked.json''
      then Inr \<lparr>status_code = 200, body = Some sample_document\<rparr>
      else if url = ''https://api.github.com/repos/c/d''
      then Inr \<lparr>status_code = 200, body = None\<rparr>
      else if url = ''https://api.github.com/repos/g/h''
      then Inl ''timed out''
      else Inr \<lparr>status_code = 404, body = None\<rparr>)"

definition sample_put :: "string \<Rightarrow> headers \<Rightarrow> payload \<Rightarrow> string + response" where
  "sample_put url h p =
     Inr \<lparr>status_code = 200, body = Some (JObj [(''content'', JObj [(''sha'', JStr ''v2'')])])\<rparr>"

definition sample :: "string list \<Rightarrow> env" where
  "sample order = sample_env sample_get sample_put (\<lambda>S. order)"

definition serving :: "string \<Rightarrow> json \<Rightarrow> env" where
  \<comment> \<open>the store after a write: it serves the content under a token\<close>
  "serving stored token =
     sample_env
       (\<lambda>u h. Inr \<lparr>status_code = 200,
                    body = Some (JObj [(''content'', JStr stored), (''sha'', token)])\<rparr>)
       sample_put (\<lambda>S. [])"

definition holding :: "string \<Rightarrow> string list \<Rightarrow> env" where
  \<comment> \<open>the sample environment over a store that holds another content, under the token
      \<^verbatim>\<open>v7\<close>\<close>
  "holding stored order =
     sample_env
       (\<lambda>u h. if u = ''https://api.github.com/repos/owner/tracker/contents/data/tracked.json''
              then Inr \<lparr>status_code = 200,
                        body = Some (JObj [(''content'', JStr stored), (''sha'', JStr ''v7'')])\<rparr>
              else sample_get u h)
       sample_put (\<lambda>S. order)"

definition answering :: "nat \<Rightarrow> env" where
  \<comment> \<open>a store that answers every request with a status and no body\<close>
  "answering status =
     sample_env (\<lambda>u h. Inr \<lparr>status_code = status, body = None\<rparr>)
       (\<lambda>u h p. Inr \<lparr>status_code = status, body = None\<rparr>) (\<lambda>S. [])"

definition batch_of_21 :: string where
  "batch_of_21 =
     ''o/r1 o/r2 o/r3 o/r4 o/r5 o/r6 o/r7 o/r8 o/r9 o/r10 o/r11 o/r12 o/r13 o/r14 o/r15 o/r16 o/r17 o/r18 o/r19 o/r20 o/r21''"

definition batch_of_20 :: string where
  "batch_of_20 =
     ''o/r1 o/r2 o/r3 o/r4 o/r5 o/r6 o/r7 o/r8 o/r9 o/r10 o/r11 o/r12 o/r13 o/r14 o/r15 o/r16 o/r17 o/r18 o/r19 o/r20''"

section \<open>Extraction: what the pattern finds\<close>

lemma slash_not_repo_char: "\<not> repo_char (CHR ''/'')"
  by (simp add: repo_char_def)

lemma strip_url_prefix_slash:
  "strip_url_prefix s = Some t \<Longrightarrow> CHR ''/'' \<in> set s"
  by (auto simp: strip_url_prefix_def prefix_def split: if_splits)

lemma match_pair_slash:
  assumes "match_pair s = Some m"
  shows "CHR ''/'' \<in> set s"
proof -
  from assms obtain s2 where "dropWhile repo_char s = CHR ''/'' # s2"
    by (auto simp: match_pair_def Let_def split: list.splits if_splits)
  then have "CHR ''/'' \<in> set (dropWhile repo_char s)" by simp
  then show ?thesis by (rule set_dropWhileD)
qed

lemma match_here_slash:
  "match_here s = Some m \<Longrightarrow> CHR ''/'' \<in> set s"
  by (auto simp: match_here_def split: option.splits
      dest: match_pair_slash strip_url_prefix_slash)

lemma findall_no_slash: "CHR ''/'' \<notin> set s \<Longrightarrow> findall s = []"
proof (induction s)
  case Nil
  show ?case by simp
next
  case (Cons c cs)
  then have "match_here (c # cs) = None"
    using match_here_slash [of "c # cs"] by (cases "match_here (c # cs)") auto
  with Cons show ?case by simp
qed

lemma match_pair_canonical:
  assumes u: "u \<noteq> []" "\<forall>c\<in>set u. repo_char c"
    and r: "r \<noteq> []" "\<forall>c\<in>set r. repo_char c"
    and rest: "rest = [] \<or> \<not> repo_char (hd rest)"
  shows "match_pair (u @ CHR ''/'' # r @ rest) = Some ((u, r), rest)"
proof -
  have tw: "takeWhile repo_char (u @ CHR ''/'' # r @ rest) = u"
    using u slash_not_repo_char by (simp add: takeWhile_tail)
  have dw: "dropWhile repo_char (u @ CHR ''/'' # r @ rest) = CHR ''/'' # r @ rest"
    using u slash_not_repo_char by (simp add: dropWhile_append3)
  have tr: "takeWhile repo_char (r @ rest) = r"
    using r rest by (cases rest) (auto simp: takeWhile_tail)
  have dr: "dropWhile repo_char (r @ rest) = rest"
    using r rest by (cases rest) (auto simp: dropWhile_append3)
  show ?thesis
    using u r by (simp add: match_pair_def tw dw tr dr)
qed

lemma strip_url_prefix_canonical:
  assumes u: "\<forall>c\<in>set u. repo_char c"
  shows "strip_url_prefix (u @ CHR ''/'' # w) = None"
proof -
  have dw: "dropWhile repo_char (u @ CHR ''/'' # w) = CHR ''/'' # w"
    using u slash_not_repo_char by (simp add: dropWhile_append3)
  have "\<not> prefix ''https://github.com/'' (u @ CHR ''/'' # w)"
  proof
    assume "prefix ''https://github.com/'' (u @ CHR ''/'' # w)"
    then obtain zs where "u @ CHR ''/'' # w = ''https://github.com/'' @ zs"
      by (auto simp: prefix_def)
    then have "dropWhile repo_char (u @ CHR ''/'' # w) = dropWhile repo_char (''https://github.com/'' @ zs)"
      by simp
    then show False by (simp add: dw repo_char_def)
  qed
  moreover have "\<not> prefix ''http://github.com/'' (u @ CHR ''/'' # w)"
  proof
    assume "prefix ''http://github.com/'' (u @ CHR ''/'' # w)"
    then obtain zs where "u @ CHR ''/'' # w = ''http://github.com/'' @ zs"
      by (auto simp: prefix_def)
    then have "dropWhile repo_char (u @ CHR ''/'' # w) = dropWhile repo_char (''http://github.com/'' @ zs)"
      by simp
    then show False by (simp add: dw repo_char_def)
  qed
  ultimately show ?thesis by (simp add: strip_url_prefix_def)
qed

lemma findall_match:
  assumes "match_here s = Some (p, rest)"
  shows "findall s = p # findall rest"
proof (cases s)
  case Nil
  with assms show ?thesis
    by (simp add: match_here_def strip_url_prefix_def match_pair_def)
next
  case (Cons c cs)
  with assms show ?thesis by simp
qed

lemma findall_skip:
  "\<not> repo_char c \<Longrightarrow> c \<noteq> CHR ''h'' \<Longrightarrow> findall (c # cs) = findall cs"
  by (simp add: match_here_def strip_url_prefix_def match_pair_def)

lemma match_here_written:
  assumes p: "canonical p" and rest: "rest = [] \<or> \<not> repo_char (hd rest)"
  shows "match_here (written (f, p) @ rest) = Some (p, rest)"
proof -
  obtain u r where [simp]: "p = (u, r)" by (cases p)
  from p have u: "u \<noteq> []" "\<forall>c\<in>set u. repo_char c" and r: "r \<noteq> []" "\<forall>c\<in>set r. repo_char c"
    by (simp_all add: canonical_def)
  have mp: "match_pair (u @ CHR ''/'' # r @ rest) = Some ((u, r), rest)"
    using u r rest by (rule match_pair_canonical)
  show ?thesis
  proof (cases f)
    case Bare
    have "strip_url_prefix (u @ CHR ''/'' # r @ rest) = None"
      using u(2) by (rule strip_url_prefix_canonical)
    with mp Bare show ?thesis by (simp add: match_here_def written_def repo_name_def)
  next
    case Http
    have "strip_url_prefix (''http://github.com/'' @ u @ CHR ''/'' # r @ rest)
        = Some (u @ CHR ''/'' # r @ rest)"
      by (simp add: strip_url_prefix_def)
    with mp Http show ?thesis by (simp add: match_here_def written_def repo_name_def)
  next
    case Https
    have "strip_url_prefix (''https://github.com/'' @ u @ CHR ''/'' # r @ rest)
        = Some (u @ CHR ''/'' # r @ rest)"
      by (simp add: strip_url_prefix_def)
    with mp Https show ?thesis by (simp add: match_here_def written_def repo_name_def)
  qed
qed

lemma findall_written:
  assumes "\<forall>fp\<in>set items. canonical (snd fp)"
  shows "findall (join '' '' (map written items)) = map snd items"
  using assms
proof (induction items rule: induct_list012)
  case 1
  show ?case by simp
next
  case (2 fp)
  obtain f p where [simp]: "fp = (f, p)" by (cases fp)
  from 2 have "match_here (written (f, p) @ []) = Some (p, [])"
    by (intro match_here_written) simp_all
  then show ?case by (simp add: findall_match)
next
  case (3 fp fq items)
  obtain f p where [simp]: "fp = (f, p)" by (cases fp)
  let ?rest = "'' '' @ join '' '' (map written (fq # items))"
  from 3(3) have "match_here (written (f, p) @ ?rest) = Some (p, ?rest)"
    by (intro match_here_written) (simp_all add: repo_char_def)
  then have "findall (written (f, p) @ ?rest) = p # findall ?rest"
    by (rule findall_match)
  also have "findall ?rest = findall (join '' '' (map written (fq # items)))"
    using findall_skip [of "CHR '' ''"] by (simp add: repo_char_def del: findall.simps)
  also have "\<dots> = map snd (fq # items)"
    using 3 by simp
  finally show ?case by simp
qed

lemma match_pair_canonical_result:
  assumes "match_pair s = Some (p, rest)"
  shows "canonical p"
proof -
  from assms have p: "p = (takeWhile repo_char s, takeWhile repo_char (tl (dropWhile repo_char s)))"
    and ne: "fst p \<noteq> []" "snd p \<noteq> []"
    by (auto simp: match_pair_def Let_def split: list.splits if_splits)
  show ?thesis
    using ne by (auto simp: canonical_def p dest: set_takeWhileD)
qed

lemma match_here_canonical_result:
  "match_here s = Some (p, rest) \<Longrightarrow> canonical p"
  by (auto simp: match_here_def split: option.splits dest: match_pair_canonical_result)

lemma findall_canonical: "p \<in> set (findall s) \<Longrightarrow> canonical p"
proof (induction "length s" arbitrary: s rule: less_induct)
  case less
  show ?case
  proof (cases s)
    case Nil
    with less.prems show ?thesis by simp
  next
    case (Cons c cs)
    show ?thesis
    proof (cases "match_here (c # cs)")
      case None
      with less.prems Cons have "p \<in> set (findall cs)" by simp
      with less.hyps [of cs] Cons show ?thesis by simp
    next
      case (Some m)
      obtain q rest where m: "m = (q, rest)" by (cases m)
      from Some m have q: "canonical q" and shorter: "length rest < length s"
        using Cons by (auto dest: match_here_canonical_result match_here_shorter)
      from less.prems Cons Some m have "p = q \<or> p \<in> set (findall rest)" by simp
      with q less.hyps [OF shorter] show ?thesis by auto
    qed
  qed
qed

lemma sep_to_space_repo_char: "repo_char c \<Longrightarrow> sep_to_space c = c"
  by (auto simp: sep_to_space_def repo_char_def)

lemma replace_separators_idem: "replace_separators (replace_separators t) = replace_separators t"
  by (simp add: replace_separators_def sep_to_space_def)

lemma repo_char_not_sep:
  "repo_char c \<Longrightarrow> c \<noteq> CHR '','' \<and> c \<noteq> CHR 0x0A \<and> c \<noteq> CHR ''/''"
  by (auto simp: repo_char_def)

lemma replace_separators_id:
  "CHR '','' \<notin> set s \<Longrightarrow> CHR 0x0A \<notin> set s \<Longrightarrow> replace_separators s = s"
  by (induction s) (auto simp: replace_separators_def sep_to_space_def)

lemma set_join: "set (join sep xs) \<subseteq> set sep \<union> \<Union> (set ` set xs)"
  by (induction sep xs rule: join.induct) auto

lemma set_written:
  "canonical (snd fp) \<Longrightarrow> c \<in> set (written fp) \<Longrightarrow> c \<noteq> CHR '','' \<and> c \<noteq> CHR 0x0A"
  by (cases "fst fp") (auto simp: written_def repo_name_def canonical_def dest: repo_char_not_sep)

lemma replace_separators_written:
  assumes "\<forall>fp\<in>set items. canonical (snd fp)"
  shows "replace_separators (join '' '' (map written items)) = join '' '' (map written items)"
proof (rule replace_separators_id)
  show "CHR '','' \<notin> set (join '' '' (map written items))"
    using set_join [of "'' ''" "map written items"] assms set_written by fastforce
  show "CHR 0x0A \<notin> set (join '' '' (map written items))"
    using set_join [of "'' ''" "map written items"] assms set_written by fastforce
qed

lemma extract_written:
  assumes "\<forall>fp\<in>set items. canonical (snd fp)"
  shows "extract_repos_from_text (join '' '' (map written items)) = repo_name ` snd ` set items"
  using assms
  by (simp add: extract_repos_from_text_def replace_separators_written findall_written image_image)

lemma extract_canonical:
  assumes "i \<in> extract_repos_from_text t"
  shows "\<exists>p. canonical p \<and> i = repo_name p"
  using assms by (auto simp: extract_repos_from_text_def dest: findall_canonical)

lemma bare_forms:
  assumes "set ids \<subseteq> extract_repos_from_text t"
  shows "\<exists>items. ids = map written items \<and> (\<forall>fp\<in>set items. canonical (snd fp))
           \<and> repo_name ` snd ` set items = set ids"
  using assms
proof (induction ids)
  case Nil
  show ?case by (rule exI [of _ "[]"]) simp
next
  case (Cons i ids)
  then obtain items where items: "ids = map written items" "\<forall>fp\<in>set items. canonical (snd fp)"
    "repo_name ` snd ` set items = set ids" by auto
  from Cons.prems obtain p where p: "canonical p" "i = repo_name p"
    using extract_canonical [of i t] by auto
  show ?case
    by (rule exI [of _ "(Bare, p) # items"]) (use items p in \<open>simp add: written_def\<close>)
qed

lemma extract_idempotent:
  assumes "set ids = extract_repos_from_text t"
  shows "extract_repos_from_text (join '' '' ids) = extract_repos_from_text t"
proof -
  from assms have "set ids \<subseteq> extract_repos_from_text t" by simp
  from bare_forms [OF this] obtain items where items: "ids = map written items"
    "\<forall>fp\<in>set items. canonical (snd fp)" "repo_name ` snd ` set items = set ids" by blast
  show ?thesis
    using extract_written [OF items(2)] items(1,3) assms by simp
qed

lemma extract_replace_separators:
  "extract_repos_from_text (replace_separators t) = extract_repos_from_text t"
  by (simp add: extract_repos_from_text_def replace_separators_idem)

lemma example_separators: "extract_repos_from_text (''a/b, c/d'' @ [CHR 0x0A] @ ''e/f'') = {''a/b'', ''c/d'', ''e/f''}"
  by code_simp
lemma example_spaces: "extract_repos_from_text ''a/b c/d e/f'' = {''a/b'', ''c/d'', ''e/f''}"
  by code_simp
lemma example_duplicates: "extract_repos_from_text ''a/b a/b https://github.com/a/b'' = {''a/b''}"
  by code_simp

lemma findall_schemeless:
  assumes x: "x \<noteq> []" "\<forall>c\<in>set x. repo_char c" and y: "\<forall>c\<in>set y. repo_char c"
  shows "findall (''github.com/'' @ x @ ''/'' @ y) = [(''github.com'', x)]"
proof -
  let ?rest = "CHR ''/'' # y"
  have shape: "''github.com/'' @ x @ ''/'' @ y = ''github.com'' @ CHR ''/'' # x @ ?rest" by simp
  have g: "''github.com'' \<noteq> []" "\<forall>c\<in>set ''github.com''. repo_char c"
    by (simp_all add: repo_char_def)
  have "match_pair (''github.com'' @ CHR ''/'' # x @ ?rest) = Some ((''github.com'', x), ?rest)"
    using g x by (rule match_pair_canonical) (simp add: slash_not_repo_char)
  moreover have "strip_url_prefix (''github.com'' @ CHR ''/'' # x @ ?rest) = None"
    using g(2) by (rule strip_url_prefix_canonical)
  ultimately have "match_here (''github.com'' @ CHR ''/'' # x @ ?rest) = Some ((''github.com'', x), ?rest)"
    by (simp add: match_here_def)
  then have "findall (''github.com'' @ CHR ''/'' # x @ ?rest) = (''github.com'', x) # findall ?rest"
    by (rule findall_match)
  also have "findall ?rest = findall y"
    using findall_skip [of "CHR ''/''" y] by (simp add: slash_not_repo_char)
  also have "findall y = []"
    using y slash_not_repo_char by (intro findall_no_slash) auto
  finally show ?thesis unfolding shape .
qed

text \<open>
  Claim C8. Extraction is a function from the text to a set of identifiers. Commas and
  newlines count as spaces: replacing them by spaces first does not change the result, and
  the two example texts give the same three identifiers. An identifier written several
  times, bare or as an \<^verbatim>\<open>http://github.com/\<close> or \<^verbatim>\<open>https://github.com/\<close> URL, is
  found once: the text of any canonical identifiers in any of the three forms, separated
  by spaces, gives exactly the set of those identifiers. Extraction is idempotent: the
  identifiers extracted from a text, written out in any order, give the same set again.
\<close>

theorem extract_canonicalization:
  assumes forms: "\<forall>fp\<in>set items. canonical (snd fp)"
    and ids: "set ids = extract_repos_from_text t"
  shows "extract_repos_from_text (replace_separators s) = extract_repos_from_text s
       \<and> extract_repos_from_text (''a/b, c/d'' @ [newline] @ ''e/f'') = {''a/b'', ''c/d'', ''e/f''}
       \<and> extract_repos_from_text ''a/b c/d e/f'' = {''a/b'', ''c/d'', ''e/f''}
       \<and> extract_repos_from_text ''a/b a/b https://github.com/a/b'' = {''a/b''}
       \<and> extract_repos_from_text (join '' '' (map written items)) = repo_name ` snd ` set items
       \<and> extract_repos_from_text (join '' '' ids) = extract_repos_from_text t"
proof -
  have "extract_repos_from_text (''a/b, c/d'' @ [newline] @ ''e/f'') = {''a/b'', ''c/d'', ''e/f''}"
    unfolding newline_def by (rule example_separators)
  then show ?thesis
    using extract_replace_separators [of s] example_spaces example_duplicates extract_written [OF forms]
      extract_idempotent [OF ids]
    by simp
qed

theorem extract_canonicalization_witness:
  "extract_repos_from_text (replace_separators ''a/b,c/d'') = extract_repos_from_text ''a/b,c/d''
   \<and> extract_repos_from_text (''a/b, c/d'' @ [newline] @ ''e/f'') = {''a/b'', ''c/d'', ''e/f''}
   \<and> extract_repos_from_text ''a/b c/d e/f'' = {''a/b'', ''c/d'', ''e/f''}
   \<and> extract_repos_from_text ''a/b a/b https://github.com/a/b'' = {''a/b''}
   \<and> extract_repos_from_text
        (join '' '' (map written [(Bare, ''a'', ''b''), (Http, ''c'', ''d''), (Https, ''a'', ''b'')]))
      = repo_name ` snd ` set [(Bare, ''a'', ''b''), (Http, ''c'', ''d''), (Https, ''a'', ''b'')]
   \<and> extract_repos_from_text (join '' '' [''c/d'', ''a/b'']) = extract_repos_from_text ''a/b, c/d''"
proof -
  have forms: "\<forall>fp\<in>set [(Bare, ''a'', ''b''), (Http, ''c'', ''d''), (Https, ''a'', ''b'')].
      canonical (snd fp)"
    by (simp add: canonical_def repo_char_def)
  have ids: "set [''c/d'', ''a/b''] = extract_repos_from_text ''a/b, c/d''"
    by code_simp
  show ?thesis
    by (rule extract_canonicalization [OF forms ids])
qed

text \<open>
  Claim C10, as amended. For a token \<^verbatim>\<open>github.com/x/y\<close> with no scheme, where \<open>x\<close> and
  \<open>y\<close> are non-empty and made of class characters, the pattern takes the domain for
  the owner: the result is the one identifier \<^verbatim>\<open>github.com/x\<close>. The identifier
  \<^verbatim>\<open>x/y\<close> is not returned, except when \<open>x\<close> and \<open>y\<close> are both \<^verbatim>\<open>github.com\<close>, where
  it is that same identifier.
\<close>

theorem schemeless_url_owner_is_domain:
  assumes "x \<noteq> []" "y \<noteq> []" "\<forall>c\<in>set x. repo_char c" "\<forall>c\<in>set y. repo_char c"
  shows "extract_repos_from_text (''github.com/'' @ x @ ''/'' @ y) = {''github.com/'' @ x}
       \<and> (x @ ''/'' @ y \<in> extract_repos_from_text (''github.com/'' @ x @ ''/'' @ y)
            \<longleftrightarrow> x = ''github.com'' \<and> y = ''github.com'')"
proof -
  have nx: "CHR '','' \<notin> set x" "CHR 0x0A \<notin> set x" "CHR ''/'' \<notin> set x"
    and ny: "CHR '','' \<notin> set y" "CHR 0x0A \<notin> set y"
    using assms(3,4) repo_char_not_sep by blast+
  have rs: "replace_separators (''github.com/'' @ x @ ''/'' @ y) = ''github.com/'' @ x @ ''/'' @ y"
    by (rule replace_separators_id) (use nx ny in simp_all)
  have fa: "findall (''github.com/'' @ x @ ''/'' @ y) = [(''github.com'', x)]"
    using assms(1,3,4) by (rule findall_schemeless)
  have "extract_repos_from_text (''github.com/'' @ x @ ''/'' @ y)
      = set (map repo_name [(''github.com'', x)])"
    by (simp only: extract_repos_from_text_def rs fa)
  then have ex: "extract_repos_from_text (''github.com/'' @ x @ ''/'' @ y) = {''github.com/'' @ x}"
    by (simp add: repo_name_def)
  have "x @ CHR ''/'' # y = ''github.com'' @ CHR ''/'' # x \<longleftrightarrow> x = ''github.com'' \<and> y = x"
  proof
    assume eq: "x @ CHR ''/'' # y = ''github.com'' @ CHR ''/'' # x"
    have "takeWhile (\<lambda>c. c \<noteq> CHR ''/'') (x @ CHR ''/'' # y) = x"
      using nx(3) by (auto simp: takeWhile_tail)
    moreover have "takeWhile (\<lambda>c. c \<noteq> CHR ''/'') (''github.com'' @ CHR ''/'' # x) = ''github.com''"
      by simp
    ultimately have "x = ''github.com''" using eq by simp
    with eq show "x = ''github.com'' \<and> y = x" by simp
  next
    assume "x = ''github.com'' \<and> y = x"
    then show "x @ CHR ''/'' # y = ''github.com'' @ CHR ''/'' # x" by simp
  qed
  then have "x @ ''/'' @ y = ''github.com/'' @ x \<longleftrightarrow> x = ''github.com'' \<and> y = ''github.com''"
    by auto
  with ex show ?thesis by simp
qed

theorem schemeless_url_owner_is_domain_witness:
  "extract_repos_from_text (''github.com/'' @ ''octocat'' @ ''/'' @ ''Hello-World'')
     = {''github.com/'' @ ''octocat''}
   \<and> (''octocat'' @ ''/'' @ ''Hello-World''
        \<in> extract_repos_from_text (''github.com/'' @ ''octocat'' @ ''/'' @ ''Hello-World'')
      \<longleftrightarrow> ''octocat'' = ''github.com'' \<and> ''Hello-World'' = ''github.com'')"
proof -
  have h: "''octocat'' \<noteq> []" "''Hello-World'' \<noteq> []"
    "\<forall>c\<in>set ''octocat''. repo_char c" "\<forall>c\<in>set ''Hello-World''. repo_char c"
    by (simp_all add: repo_char_def)
  show ?thesis
    by (rule schemeless_url_owner_is_domain [OF h])
qed

text \<open>
  Claim C10 as it is written fails at \<open>x = y =\<close> \<^verbatim>\<open>github.com\<close>: for the token
  \<^verbatim>\<open>github.com/github.com/github.com\<close> the identifier \<^verbatim>\<open>x/y\<close> is returned.
\<close>

theorem schemeless_url_counterexample:
  "''github.com'' @ ''/'' @ ''github.com''
     \<in> extract_repos_from_text (''github.com/'' @ ''github.com'' @ ''/'' @ ''github.com'')"
  by code_simp

section \<open>The validator\<close>

text \<open>
  Claim C4, as amended. \<^verbatim>\<open>validate_repo_exists\<close> sends one request, a \<^verbatim>\<open>GET\<close> of
  \<^verbatim>\<open>https://api.github.com/repos/{owner}/{name}\<close> with no headers, and when it is answered
  returns whether the status is outside 400 to 599: true for every 2xx status, false for
  every 4xx and 5xx status, and true as well for a status below 400 that is not 2xx.
\<close>

theorem validate_repo_exists_status:
  assumes "http_get e (repo_url repo) [] = Inr r"
  shows "validate_repo_exists e repo =
           ([HttpGet (''https://api.github.com/repos/'' @ repo) []],
            Inr (\<not> (400 \<le> status_code r \<and> status_code r < 600)))
       \<and> (200 \<le> status_code r \<and> status_code r < 300 \<longrightarrow>
            snd (validate_repo_exists e repo) = Inr True)
       \<and> (400 \<le> status_code r \<and> status_code r < 600 \<longrightarrow>
            snd (validate_repo_exists e repo) = Inr False)"
  using assms
  by (simp add: validate_repo_exists_def repo_url_def ok_def raise_for_status_def)

theorem validate_repo_exists_status_witness:
  "validate_repo_exists
     (sample_env (\<lambda>u h. Inr \<lparr>status_code = 404, body = None\<rparr>) (\<lambda>u h p. Inl []) (\<lambda>S. []))
     ''nonexistent-user-xyz/no-such-repo''
   = ([HttpGet ''https://api.github.com/repos/nonexistent-user-xyz/no-such-repo'' []], Inr False)"
proof -
  have h: "http_get
      (sample_env (\<lambda>u h. Inr \<lparr>status_code = 404, body = None\<rparr>) (\<lambda>u h p. Inl []) (\<lambda>S. []))
      (repo_url ''nonexistent-user-xyz/no-such-repo'') []
    = Inr \<lparr>status_code = 404, body = None\<rparr>"
    by (simp add: sample_env_def)
  from validate_repo_exists_status [OF h] show ?thesis by simp
qed

text \<open>
  Claim C4 as it is written fails for a status below 400 outside 2xx: on the answer
  \<^verbatim>\<open>304\<close> the validator returns true.
\<close>

theorem validate_repo_exists_2xx_counterexample:
  "validate_repo_exists
     (sample_env (\<lambda>u h. Inr \<lparr>status_code = 304, body = None\<rparr>) (\<lambda>u h p. Inl []) (\<lambda>S. []))
     ''octocat/Hello-World''
   = ([HttpGet ''https://api.github.com/repos/octocat/Hello-World'' []], Inr True)
   \<and> \<not> (200 \<le> (304 :: nat) \<and> (304 :: nat) < 300)"
  by (simp add: validate_repo_exists_def repo_url_def ok_def raise_for_status_def sample_env_def)

section \<open>The reconciler: the loops in closed form\<close>

lemma add_outcome_iff:
  "add_outcome e registry c = Added \<longleftrightarrow> c \<notin> set registry \<and> confirmed e c"
  "add_outcome e registry c = Already_tracked \<longleftrightarrow> c \<in> set registry"
  "add_outcome e registry c = Failed \<longleftrightarrow> c \<notin> set registry \<and> \<not> confirmed e c"
  by (auto simp: add_outcome_def confirmed_def)

lemma validate_calls: "fst (validate_repo_exists e repo) = [HttpGet (repo_url repo) []]"
  by (simp add: validate_repo_exists_def Let_def)

lemma validate_split:
  "validate_repo_exists e repo = ([HttpGet (repo_url repo) []], validation e repo)"
  by (simp add: validate_repo_exists_def validation_def Let_def)

text \<open>What reaches the \<^verbatim>\<open>except\<close> clause of the add loop, and so \<open>str_of\<close>.\<close>

lemma validate_raises:
  "snd (validate_repo_exists e repo) = Inl ex \<Longrightarrow> \<exists>m. ex = RequestException m"
  by (auto simp: validate_repo_exists_def Let_def split: sum.splits)

lemma list_append_raises: "list_append v s = Inl ex \<Longrightarrow> \<exists>m. ex = AttributeError m"
  by (auto simp: list_append_def no_attribute_def split: json.splits)

lemma contains_str_list: "contains (str_list rs) c = Inr (c \<in> set rs)"
  by (auto simp: contains_def)

lemma list_append_str_list: "list_append (str_list rs) c = Inr (str_list (rs @ [c]))"
  by (simp add: list_append_def)

lemma remove1_map_JStr: "remove1 (JStr c) (map JStr rs) = map JStr (remove1 c rs)"
  by (induction rs) auto

lemma list_remove_str_list:
  "c \<in> set rs \<Longrightarrow> list_remove (str_list rs) c = Inr (str_list (remove1 c rs))"
  by (auto simp: list_remove_def remove1_map_JStr)

lemma add_loop_closed:
  assumes "distinct cands"
  shows "add_loop e cands (str_list repos, added, skipped, failed, calls) =
     Inr (str_list (repos @ spec_added e repos cands),
      added @ spec_added e repos cands,
      skipped @ spec_already_tracked e repos cands,
      failed @ spec_failed e repos cands,
      calls @ validation_calls repos cands)"
  using assms
proof (induction cands arbitrary: repos added skipped failed calls)
  case Nil
  show ?case
    by (simp add: spec_added_def spec_already_tracked_def spec_failed_def add_outcome_iff validation_calls_def)
next
  case (Cons c cands)
  from Cons.prems have d: "distinct cands" and fresh: "c \<notin> set cands" by simp_all
  have same: "filter (\<lambda>x. x \<notin> set (repos @ [c]) \<and> P x) cands = filter (\<lambda>x. x \<notin> set repos \<and> P x) cands"
    for P
    using fresh by (intro filter_cong) auto
  have same': "filter (\<lambda>x. x \<notin> set (repos @ [c])) cands = filter (\<lambda>x. x \<notin> set repos) cands"
    using same [of "\<lambda>x. True"] by simp
  have same'': "filter (\<lambda>x. x \<in> set (repos @ [c])) cands = filter (\<lambda>x. x \<in> set repos) cands"
    using fresh by (intro filter_cong) auto
  show ?case
  proof (cases "c \<in> set repos")
    case True
    then show ?thesis
      using Cons.IH [OF d]
      by (simp add: contains_str_list spec_added_def spec_already_tracked_def spec_failed_def
          add_outcome_iff validation_calls_def)
  next
    case False
    show ?thesis
    proof (cases "validation e c")
      case (Inl ex)
      then have nc: "\<not> confirmed e c" by (simp add: confirmed_def)
      show ?thesis
        using False Inl nc Cons.IH [OF d]
        by (simp add: contains_str_list validate_split spec_added_def spec_already_tracked_def
            spec_failed_def add_outcome_iff validation_calls_def failure_report_def)
    next
      case (Inr b)
      show ?thesis
      proof (cases b)
        case True
        with Inr have cf: "confirmed e c" by (simp add: confirmed_def)
        show ?thesis
          using False Inr True cf Cons.IH [OF d, of "repos @ [c]"]
          by (simp add: contains_str_list list_append_def validate_split spec_added_def
              spec_already_tracked_def spec_failed_def add_outcome_iff
              validation_calls_def same same' same'' del: set_append)
      next
        case False': False
        with Inr have nc: "\<not> confirmed e c" by (simp add: confirmed_def)
        show ?thesis
          using False Inr False' nc Cons.IH [OF d]
          by (simp add: contains_str_list validate_split spec_added_def spec_already_tracked_def
              spec_failed_def add_outcome_iff validation_calls_def failure_report_def)
      qed
    qed
  qed
qed

lemma remove_outcome_iff:
  "remove_outcome registry c = Removed \<longleftrightarrow> c \<in> set registry"
  "remove_outcome registry c = Not_tracked \<longleftrightarrow> c \<notin> set registry"
  by (auto simp: remove_outcome_def)

lemma load_tracked_calls:
  "fst (load_tracked e) = [HttpGet (github_file_url e) (github_headers e)]"
  by (simp add: load_tracked_def Let_def)

lemma save_tracked_calls:
  "fst (save_tracked e repos t) =
     [HttpPut (github_file_url e) (github_headers e) (save_payload repos t)]"
  by (simp add: save_tracked_def Let_def)

lemma save_if_calls:
  "fst (save_if b e repos t) =
     (if b then [HttpPut (github_file_url e) (github_headers e) (save_payload repos t)] else [])"
  using save_tracked_calls [of e repos t]
  by (cases "save_tracked e repos t") (auto simp: save_if_def split: sum.splits)

lemma process_repo_addition_run:
  assumes it: "iterates e (extract_repos_from_text text)"
    and ne: "extract_repos_from_text text \<noteq> {}"
    and small: "card (extract_repos_from_text text) \<le> 20"
    and load: "load_tracked e = (l0, Inr (str_list repos0, t))"
  shows "process_repo_addition e text =
     (let cands = set_iter e (extract_repos_from_text text);
          A = spec_added e repos0 cands;
          S = spec_already_tracked e repos0 cands;
          F = spec_failed e repos0 cands;
          V = validation_calls repos0 cands;
          w = save_if (A \<noteq> []) e (str_list (repos0 @ A)) t
      in case snd w of
           Some ex \<Rightarrow> (l0 @ V @ fst w, Some ex)
         | None \<Rightarrow> (l0 @ V @ fst w @ [ReplyText (add_message A S F)], None))"
proof -
  from it have d: "distinct (set_iter e (extract_repos_from_text text))"
    by (simp add: iterates_def)
  show ?thesis
    using ne small load add_loop_closed [OF d, of e repos0 "[]" "[]" "[]" l0]
    by (cases "save_if (spec_added e repos0 (set_iter e (extract_repos_from_text text)) \<noteq> []) e
          (str_list (repos0 @ spec_added e repos0 (set_iter e (extract_repos_from_text text)))) t")
       (auto simp: process_repo_addition_def Let_def split: option.splits)
qed

lemma remove_loop_closed:
  assumes "distinct cands"
  shows "remove_loop cands (str_list repos, removed, missing) =
     Inr (str_list (spec_remaining repos cands),
      removed @ spec_removed repos cands,
      missing @ spec_not_tracked repos cands)"
  using assms
proof (induction cands arbitrary: repos removed missing)
  case Nil
  show ?case by (simp add: spec_remaining_def spec_removed_def spec_not_tracked_def remove_outcome_iff)
next
  case (Cons c cands)
  from Cons.prems have d: "distinct cands" and fresh: "c \<notin> set cands" by simp_all
  have mem: "(x \<in> set (remove1 c repos)) = (x \<in> set repos)" if "x \<in> set cands" for x
    using that fresh in_set_remove1 [of x c repos] by blast
  have same: "filter (\<lambda>x. x \<in> set (remove1 c repos)) cands = filter (\<lambda>x. x \<in> set repos) cands"
    by (rule filter_cong) (simp_all add: mem)
  have same': "filter (\<lambda>x. x \<notin> set (remove1 c repos)) cands = filter (\<lambda>x. x \<notin> set repos) cands"
    by (rule filter_cong) (simp_all add: mem)
  show ?case
    using Cons.IH [OF d]
    by (simp add: contains_str_list list_remove_str_list spec_remaining_def spec_removed_def
        spec_not_tracked_def remove_outcome_iff same same')
qed

lemma count_list_remove1:
  "count_list (remove1 x ys) c = count_list ys c - (if x = c then 1 else 0)"
  by (induction ys) auto

lemma count_list_fold_remove1:
  "distinct xs \<Longrightarrow>
   count_list (fold remove1 xs ys) c = count_list ys c - (if c \<in> set xs then 1 else 0)"
  by (induction xs arbitrary: ys) (auto simp: count_list_remove1)

lemma fold_remove1_distinct:
  "distinct ys \<Longrightarrow> fold remove1 xs ys = filter (\<lambda>y. y \<notin> set xs) ys"
proof (induction xs arbitrary: ys)
  case Nil
  show ?case by simp
next
  case (Cons x xs)
  have "fold remove1 (x # xs) ys = fold remove1 xs (removeAll x ys)"
    using Cons.prems by (simp add: distinct_remove1_removeAll)
  also have "\<dots> = filter (\<lambda>y. y \<notin> set xs) (removeAll x ys)"
    using Cons.prems by (intro Cons.IH) (simp add: distinct_removeAll)
  also have "\<dots> = filter (\<lambda>y. y \<notin> set (x # xs)) ys"
    by (induction ys) auto
  finally show ?case .
qed

lemma spec_remaining_distinct:
  assumes "distinct registry"
  shows "set (spec_remaining registry cands) = set registry - set cands"
    and "distinct (spec_remaining registry cands)"
  using assms by (auto simp: spec_remaining_def spec_removed_def fold_remove1_distinct remove_outcome_iff)

lemma remove_cmd_run:
  assumes it: "iterates e (extract_repos_from_text (join '' '' args))"
    and args: "args \<noteq> []"
    and ne: "extract_repos_from_text (join '' '' args) \<noteq> {}"
    and load: "load_tracked e = (l0, Inr (str_list repos0, t))"
  shows "remove_cmd e args =
     (let cands = set_iter e (extract_repos_from_text (join '' '' args));
          R = spec_removed repos0 cands;
          N = spec_not_tracked repos0 cands;
          w = save_if (R \<noteq> []) e (str_list (spec_remaining repos0 cands)) t
      in case snd w of
           Some ex \<Rightarrow> (l0 @ fst w, Some ex)
         | None \<Rightarrow> (l0 @ fst w @ [ReplyText (remove_message R N)], None))"
proof -
  from it have d: "distinct (set_iter e (extract_repos_from_text (join '' '' args)))"
    by (simp add: iterates_def)
  show ?thesis
    using args ne load remove_loop_closed [OF d, of repos0 "[]" "[]"]
    by (cases "save_if (spec_removed repos0 (set_iter e (extract_repos_from_text (join '' '' args))) \<noteq> []) e
          (str_list (spec_remaining repos0 (set_iter e (extract_repos_from_text (join '' '' args))))) t")
       (auto simp: remove_cmd_def Let_def split: option.splits)
qed

lemmas b64_eval = b64decode_def b64_index_def emit_def char_of_eq_iff b64_char_def

lemmas json_eval = json_loads_def skip_ws_def is_ws_def dquote_def backslash_def prepend_def
  newline_def unescape_def

lemma sample_decode:
  "decode_document fl sample_document = Inr (JObj [(''repos'', JArr [JStr ''a/b''])])"
  by (simp add: decode_document_def sample_document_def then_do_def getitem_def dict_get_def
      str_concat_def bytes_decode_def b64_eval json_eval dict_set_def)

lemma sample_url: "github_file_url (sample order) =
    ''https://api.github.com/repos/owner/tracker/contents/data/tracked.json''"
  by (simp add: github_file_url_def sample_def sample_env_def DATA_PATH_def)

lemma sample_headers: "github_headers (sample order) = [(''Authorization'', ''token secret'')]"
  by (simp add: github_headers_def sample_def sample_env_def)

lemma sample_load:
  "load_tracked (sample order) =
     ([HttpGet ''https://api.github.com/repos/owner/tracker/contents/data/tracked.json''
         [(''Authorization'', ''token secret'')]],
      Inr (str_list [''a/b''], JStr ''v1''))"
proof -
  have g: "http_get (sample order)
      ''https://api.github.com/repos/owner/tracker/contents/data/tracked.json''
      [(''Authorization'', ''token secret'')]
    = Inr \<lparr>status_code = 200, body = Some sample_document\<rparr>"
    by (simp add: sample_def sample_env_def sample_get_def)
  have s: "getitem sample_document ''sha'' = Inr (JStr ''v1'')"
    by (simp add: getitem_def sample_document_def dict_get_def)
  show ?thesis
    by (simp add: load_tracked_def sample_url sample_headers g raise_for_status_def
        response_json_def then_do_def sample_decode s get_repos_def dict_get_def)
qed

lemma load_tracked_present:
  assumes "http_get e (github_file_url e) (github_headers e) = Inr r"
    and "\<not> (400 \<le> status_code r \<and> status_code r < 600)"
    and "body r = Some doc"
    and "decode_document (float_repr e) doc = Inr (JObj kvs)"
    and "getitem doc ''sha'' = Inr token"
  shows "load_tracked e =
     ([HttpGet (github_file_url e) (github_headers e)],
      Inr (case dict_get kvs ''repos'' of None \<Rightarrow> JArr [] | Some v \<Rightarrow> v, token))"
proof -
  from assms(2) have "status_code r \<noteq> 404" by auto
  with assms show ?thesis
    by (simp add: load_tracked_def Let_def raise_for_status_def response_json_def then_do_def
        get_repos_def)
qed

lemma load_tracked_absent:
  assumes "http_get e (github_file_url e) (github_headers e) = Inr r"
    and "status_code r = 404"
  shows "load_tracked e = ([HttpGet (github_file_url e) (github_headers e)], Inr (JArr [], JNull))"
  using assms by (simp add: load_tracked_def Let_def)

lemma serving_url: "github_file_url (serving stored token) =
    ''https://api.github.com/repos/owner/tracker/contents/data/tracked.json''"
  by (simp add: github_file_url_def serving_def sample_env_def DATA_PATH_def)

lemma serving_headers:
  "github_headers (serving stored token) = [(''Authorization'', ''token secret'')]"
  by (simp add: github_headers_def serving_def sample_env_def)

lemma string_document_decode:
  "decode_document fl (JObj [(''content'', JStr ''eyJyZXBvcyI6ICJhL2JjL2QifQ==''), (''sha'', t)])
     = Inr (JObj [(''repos'', JStr ''a/bc/d'')])"
  by (simp add: decode_document_def then_do_def getitem_def dict_get_def
      str_concat_def bytes_decode_def b64_eval json_eval dict_set_def)

lemma string_document_load:
  "load_tracked (serving ''eyJyZXBvcyI6ICJhL2JjL2QifQ=='' (JStr ''v7'')) =
     ([HttpGet ''https://api.github.com/repos/owner/tracker/contents/data/tracked.json''
         [(''Authorization'', ''token secret'')]],
      Inr (JStr ''a/bc/d'', JStr ''v7''))"
proof -
  let ?e = "serving ''eyJyZXBvcyI6ICJhL2JjL2QifQ=='' (JStr ''v7'')"
  let ?doc = "JObj [(''content'', JStr ''eyJyZXBvcyI6ICJhL2JjL2QifQ==''), (''sha'', JStr ''v7'')]"
  have g: "http_get ?e (github_file_url ?e) (github_headers ?e)
      = Inr \<lparr>status_code = 200, body = Some ?doc\<rparr>"
    by (simp add: serving_def sample_env_def)
  have t: "getitem ?doc ''sha'' = Inr (JStr ''v7'')"
    by (simp add: getitem_def dict_get_def)
  from load_tracked_present [OF g _ _ string_document_decode t]
  show ?thesis by (simp add: serving_url serving_headers dict_get_def)
qed

lemma sample_validation:
  "validation (sample order) ''c/d'' = Inr True"
  "validation (sample order) ''e/f'' = Inr False"
  "validation (sample order) ''g/h'' = Inl (RequestException ''timed out'')"
  by (simp_all add: validation_def validate_repo_exists_def repo_url_def sample_def
      sample_env_def sample_get_def ok_def raise_for_status_def)

lemma replicate_numeral_unfold:
  "replicate (numeral k) x = x # replicate (pred_numeral k) x"
  by (simp add: numeral_eq_Suc)

lemma empty_payload:
  "save_payload (JArr []) t =
     \<lparr>payload_message = ''Bot update tracked repos'',
      payload_content = ''ewogICJyZXBvcyI6IFtdCn0='', payload_sha = t\<rparr>"
  by (simp add: save_payload_def json_dumps_indent2_def registry_document_def str_encode_def
      newline_indent_def newline_def b64_char_def char_of_eq_iff encode_str_def dquote_def
      escape_ascii_char_def backslash_def replicate_numeral_unfold)

lemma spec_added_fresh:
  "set (spec_added e registry cands) \<inter> set registry = {}"
  by (auto simp: spec_added_def add_outcome_iff)

lemma count_list_distinct: "distinct xs \<Longrightarrow> x \<in> set xs \<Longrightarrow> count_list xs x = 1"
  by (induction xs) auto

lemma save_if_none_calls: "save_if False e repos t = ([], None)"
  by (simp add: save_if_def)

lemma add_loop_extends:
  "(\<exists>v ex. add_loop e cands (repos, added, skipped, failed, calls) = Inl (calls @ v, ex))
   \<or> (\<exists>r a s f v. add_loop e cands (repos, added, skipped, failed, calls)
         = Inr (r, a, s, f, calls @ v))"
proof (induction cands arbitrary: repos added skipped failed calls)
  case Nil
  show ?case by simp
next
  case (Cons c cands)
  show ?case
  proof (cases "contains repos c")
    case (Inl ex)
    then show ?thesis by simp
  next
    case (Inr b)
    show ?thesis
    proof (cases b)
      case True
      with Inr show ?thesis using Cons.IH [of repos added "skipped @ [c]" failed calls] by simp
    next
      case False
      obtain l res where v: "validate_repo_exists e c = (l, res)"
        by (cases "validate_repo_exists e c")
      have step: "(\<exists>v ex. add_loop e cands (r, a, s, f, calls @ l) = Inl (calls @ v, ex))
          \<or> (\<exists>r' a' s' f' v. add_loop e cands (r, a, s, f, calls @ l)
                = Inr (r', a', s', f', calls @ v))" for r a s f
        using Cons.IH [of r a s f "calls @ l"] by (metis append.assoc)
      show ?thesis
      proof (cases res)
        case (Inl ex)
        with Inr False v step [of repos added skipped "failed @ [failed_entry c ex]"]
        show ?thesis by simp
      next
        case res: (Inr b')
        show ?thesis
        proof (cases b')
          case no: False
          with Inr False v res step [of repos added skipped "failed @ [c]"]
          show ?thesis by simp
        next
          case yes: True
          show ?thesis
          proof (cases "list_append repos c")
            case (Inl ex)
            with Inr False v res yes step [of repos added skipped "failed @ [failed_entry c ex]"]
            show ?thesis by simp
          next
            case app: (Inr r')
            with Inr False v res yes step [of r' "added @ [c]" skipped failed]
            show ?thesis by simp
          qed
        qed
      qed
    qed
  qed
qed

lemma sample_iter: "set_iter (sample order) S = order"
  by (simp add: sample_def sample_env_def)

lemma sample_extract_add:
  "extract_repos_from_text ''a/b, c/d e/f g/h'' = {''a/b'', ''c/d'', ''e/f'', ''g/h''}"
  by code_simp

lemma sample_extract_remove:
  "extract_repos_from_text (join '' '' [''a/b'', ''x/y'']) = {''a/b'', ''x/y''}"
  by code_simp

lemma sample_save:
  "save_tracked (sample order) repos t =
     ([HttpPut ''https://api.github.com/repos/owner/tracker/contents/data/tracked.json''
         [(''Authorization'', ''token secret'')] (save_payload repos t)],
      Inr (JStr ''v2''))"
proof -
  have p: "http_put (sample order) u h q =
      Inr \<lparr>status_code = 200, body = Some (JObj [(''content'', JObj [(''sha'', JStr ''v2'')])])\<rparr>"
    for u h q
    by (simp add: sample_def sample_env_def sample_put_def)
  show ?thesis
    by (simp add: save_tracked_def sample_url sample_headers Let_def p raise_for_status_def
        response_json_def then_do_def getitem_def dict_get_def)
qed

lemma card21: "card (extract_repos_from_text batch_of_21) > 20"
  by code_simp

lemma card20: "card (extract_repos_from_text batch_of_20) = 20"
  by code_simp

text \<open>
  A store whose document holds the string \<^verbatim>\<open>xa/by\<close> where the list should be. The
  handlers go on as the interpreter does: \<^verbatim>\<open>a/b\<close> is part of the string and counts as
  tracked, \<^verbatim>\<open>c/d\<close> is validated and the \<^verbatim>\<open>append\<close> that fails is reported with it;
  the \<^verbatim>\<open>remove\<close> that fails ends its handler.
\<close>

lemma holding_url: "github_file_url (holding stored order) =
    ''https://api.github.com/repos/owner/tracker/contents/data/tracked.json''"
  by (simp add: github_file_url_def holding_def sample_env_def DATA_PATH_def)

lemma holding_headers:
  "github_headers (holding stored order) = [(''Authorization'', ''token secret'')]"
  by (simp add: github_headers_def holding_def sample_env_def)

lemma holding_decode:
  "decode_document fl (JObj [(''content'', JStr ''eyJyZXBvcyI6ICJ4YS9ieSJ9''), (''sha'', t)])
     = Inr (JObj [(''repos'', JStr ''xa/by'')])"
  by (simp add: decode_document_def then_do_def getitem_def dict_get_def
      str_concat_def bytes_decode_def b64_eval json_eval dict_set_def)

lemma holding_load:
  "load_tracked (holding ''eyJyZXBvcyI6ICJ4YS9ieSJ9'' order) =
     ([HttpGet ''https://api.github.com/repos/owner/tracker/contents/data/tracked.json''
         [(''Authorization'', ''token secret'')]],
      Inr (JStr ''xa/by'', JStr ''v7''))"
proof -
  let ?e = "holding ''eyJyZXBvcyI6ICJ4YS9ieSJ9'' order"
  let ?doc = "JObj [(''content'', JStr ''eyJyZXBvcyI6ICJ4YS9ieSJ9''), (''sha'', JStr ''v7'')]"
  have g: "http_get ?e (github_file_url ?e) (github_headers ?e)
      = Inr \<lparr>status_code = 200, body = Some ?doc\<rparr>"
    by (simp add: holding_url) (simp add: holding_def sample_env_def)
  have t: "getitem ?doc ''sha'' = Inr (JStr ''v7'')"
    by (simp add: getitem_def dict_get_def)
  from load_tracked_present [OF g _ _ holding_decode t]
  show ?thesis by (simp add: holding_url holding_headers dict_get_def)
qed

lemma holding_extract: "extract_repos_from_text ''a/b c/d'' = {''a/b'', ''c/d''}"
  by code_simp

lemma sublist_ab: "sublist ''a/b'' ''xa/by''" "\<not> sublist ''c/d'' ''xa/by''"
  by code_simp+

lemma holding_add:
  "process_repo_addition (holding ''eyJyZXBvcyI6ICJ4YS9ieSJ9'' [''a/b'', ''c/d'']) ''a/b c/d'' =
     ([HttpGet ''https://api.github.com/repos/owner/tracker/contents/data/tracked.json''
         [(''Authorization'', ''token secret'')],
       HttpGet ''https://api.github.com/repos/c/d'' [],
       ReplyText
         ([newline] @ NEXT_TRACK @ '' Already tracking:'' @ [newline] @ ''a/b'' @ [newline] @
          CROSS_MARK @ '' Invalid or inaccessible:'' @ [newline] @
          ''c/d (error: '' @ [squote] @ ''str'' @ [squote] @ '' object has no attribute '' @
          [squote] @ ''append'' @ [squote] @ '')'')],
      None)"
proof -
  let ?e = "holding ''eyJyZXBvcyI6ICJ4YS9ieSJ9'' [''a/b'', ''c/d'']"
  have v: "validate_repo_exists ?e ''c/d'' = ([HttpGet ''https://api.github.com/repos/c/d'' []], Inr True)"
    by (simp add: validate_repo_exists_def repo_url_def holding_def sample_env_def sample_get_def
        ok_def raise_for_status_def)
  have it: "set_iter ?e S = [''a/b'', ''c/d'']" for S
    by (simp add: holding_def sample_env_def)
  show ?thesis
    by (simp add: process_repo_addition_def holding_extract holding_load it contains_def
        sublist_ab v list_append_def no_attribute_def type_name_def failed_entry_def str_of_def
        save_if_def add_message_def or_else_def section_text_def)
qed

lemma holding_remove:
  "remove_cmd (holding ''eyJyZXBvcyI6ICJ4YS9ieSJ9'' [''a/b'', ''c/d'']) [''a/b'', ''c/d''] =
     ([HttpGet ''https://api.github.com/repos/owner/tracker/contents/data/tracked.json''
         [(''Authorization'', ''token secret'')]],
      Some (AttributeError
         ([squote] @ ''str'' @ [squote] @ '' object has no attribute '' @
          [squote] @ ''remove'' @ [squote])))"
proof -
  let ?e = "holding ''eyJyZXBvcyI6ICJ4YS9ieSJ9'' [''a/b'', ''c/d'']"
  have it: "set_iter ?e S = [''a/b'', ''c/d'']" for S
    by (simp add: holding_def sample_env_def)
  have x: "extract_repos_from_text (join '' '' [''a/b'', ''c/d'']) = {''a/b'', ''c/d''}"
    by code_simp
  show ?thesis
    by (simp only: remove_cmd_def x Let_def)
      (simp add: holding_load it contains_def sublist_ab list_remove_def no_attribute_def
        type_name_def)
qed

lemma sublist_join: "x \<in> set xs \<Longrightarrow> sublist x (join sep xs)"
proof (induction sep xs rule: join.induct)
  case (1 sep)
  then show ?case by simp
next
  case (2 sep y)
  then show ?case by simp
next
  case (3 sep y z zs)
  show ?case
  proof (cases "x = y")
    case True
    then show ?thesis by simp
  next
    case False
    with 3 have "sublist x (join sep (z # zs))" by simp
    then obtain ps ss where "join sep (z # zs) = ps @ x @ ss" by (auto simp: sublist_def)
    then have "join sep (y # z # zs) = (y @ sep @ ps) @ x @ ss" by simp
    then show ?thesis unfolding sublist_def by blast
  qed
qed

lemma sublist_inside: "sublist x b \<Longrightarrow> sublist x (a @ b @ c)"
proof -
  assume "sublist x b"
  then obtain ps ss where "b = ps @ x @ ss" by (auto simp: sublist_def)
  then have "a @ b @ c = (a @ ps) @ x @ (ss @ c)" by simp
  then show ?thesis unfolding sublist_def by blast
qed

lemma add_message_text:
  assumes "A \<noteq> [] \<or> S \<noteq> [] \<or> F \<noteq> []"
  shows "add_message A S F =
     (if A = [] then [] else CHECK_MARK @ '' Added:'' @ [newline] @ join [newline] A) @
     (if S = [] then []
      else [newline] @ NEXT_TRACK @ '' Already tracking:'' @ [newline] @ join [newline] S) @
     (if F = [] then []
      else [newline] @ CROSS_MARK @ '' Invalid or inaccessible:'' @ [newline] @
           join [newline] F)"
  using assms by (auto simp: add_message_def or_else_def section_text_def)

lemma sections_all:
  assumes "x \<in> set A \<union> set S \<union> set F"
  shows "sublist x
     ((if A = [] then [] else h1 @ join sep A) @
      (if S = [] then [] else h2 @ join sep S) @
      (if F = [] then [] else h3 @ join sep F))"
proof -
  let ?a = "if A = [] then [] else h1 @ join sep A"
  let ?s = "if S = [] then [] else h2 @ join sep S"
  let ?f = "if F = [] then [] else h3 @ join sep F"
  from assms consider "x \<in> set A" | "x \<in> set S" | "x \<in> set F" by auto
  then show ?thesis
  proof cases
    case 1
    then have "sublist x (h1 @ join sep A @ [])" by (intro sublist_inside sublist_join)
    with 1 have "sublist x ?a" by auto
    then have "sublist x ([] @ ?a @ (?s @ ?f))" by (rule sublist_inside)
    then show ?thesis by simp
  next
    case 2
    then have "sublist x (h2 @ join sep S @ [])" by (intro sublist_inside sublist_join)
    with 2 have "sublist x ?s" by auto
    then have "sublist x (?a @ ?s @ ?f)" by (rule sublist_inside)
    then show ?thesis by simp
  next
    case 3
    then have "sublist x (h3 @ join sep F @ [])" by (intro sublist_inside sublist_join)
    with 3 have "sublist x ?f" by auto
    then have "sublist x ((?a @ ?s) @ ?f @ [])" by (rule sublist_inside)
    then show ?thesis by simp
  qed
qed

lemma message_lists_all:
  assumes "x \<in> set A \<union> set S \<union> set F"
  shows "sublist x
     ((if A = [] then [] else CHECK_MARK @ '' Added:'' @ [newline] @ join [newline] A) @
      (if S = [] then []
       else [newline] @ NEXT_TRACK @ '' Already tracking:'' @ [newline] @ join [newline] S) @
      (if F = [] then []
       else [newline] @ CROSS_MARK @ '' Invalid or inaccessible:'' @ [newline] @
            join [newline] F))"
  using sections_all [OF assms, of "CHECK_MARK @ '' Added:'' @ [newline]" "[newline]"
      "[newline] @ NEXT_TRACK @ '' Already tracking:'' @ [newline]"
      "[newline] @ CROSS_MARK @ '' Invalid or inaccessible:'' @ [newline]"]
  by (simp only: append_assoc)

section \<open>The reconciler: the claims\<close>

text \<open>
  Claim C1. One add batch, read against the registry just loaded, where the candidates
  are the extracted set in the order the interpreter iterates it. A candidate already in
  the registry is skipped (outcome already tracked) and not appended; an absent candidate
  the validator confirms is appended to the working list and to the added list; an absent
  candidate the validator denies, or whose validation raises, goes to the failed list.
  The handler writes to the store exactly when the added list is not empty, and then once,
  the registry followed by the added identifiers under the token that was read. Every
  added identifier occurs once in the written list and the others as often as before, so
  a registry without duplicates stays so; when every candidate is already tracked the
  handler reads, replies and does nothing else.
\<close>

theorem add_path_reconciliation:
  assumes it: "iterates e (extract_repos_from_text text)"
    and ne: "extract_repos_from_text text \<noteq> {}"
    and small: "card (extract_repos_from_text text) \<le> 20"
    and load: "load_tracked e = (l0, Inr (str_list registry, t))"
    and cands: "cands = set_iter e (extract_repos_from_text text)"
  shows "add_loop e cands (str_list registry, [], [], [], l0) =
           Inr (str_list (registry @ spec_added e registry cands),
            spec_added e registry cands,
            spec_already_tracked e registry cands,
            spec_failed e registry cands,
            l0 @ validation_calls registry cands)
       \<and> filter is_write (fst (process_repo_addition e text)) =
           (if spec_added e registry cands \<noteq> []
            then [HttpPut (github_file_url e) (github_headers e)
                    (save_payload (str_list (registry @ spec_added e registry cands)) t)]
            else [])
       \<and> ((\<exists>c\<in>set (fst (process_repo_addition e text)). is_write c)
            \<longleftrightarrow> spec_added e registry cands \<noteq> [])
       \<and> (\<forall>c. count_list (registry @ spec_added e registry cands) c =
              (if c \<in> set (spec_added e registry cands) then 1 else count_list registry c))
       \<and> (distinct registry \<longrightarrow> distinct (registry @ spec_added e registry cands))
       \<and> (set cands \<subseteq> set registry \<longrightarrow>
            process_repo_addition e text = (l0 @ [ReplyText (add_message [] cands [])], None))"
proof -
  let ?A = "spec_added e registry cands"
  let ?w = "save_if (?A \<noteq> []) e (str_list (registry @ ?A)) t"
  from it cands have d: "distinct cands" by (simp add: iterates_def)
  have l0: "l0 = [HttpGet (github_file_url e) (github_headers e)]"
    using load load_tracked_calls [of e] by simp
  have dA: "distinct ?A" using d by (simp add: spec_added_def)
  have fresh: "set ?A \<inter> set registry = {}" by (rule spec_added_fresh)
  have loop: "add_loop e cands (str_list registry, [], [], [], l0) =
      Inr (str_list (registry @ ?A), ?A, spec_already_tracked e registry cands,
       spec_failed e registry cands, l0 @ validation_calls registry cands)"
    using add_loop_closed [OF d, of e registry "[]" "[]" "[]" l0] by simp
  have run: "process_repo_addition e text =
      (case snd ?w of
         Some ex \<Rightarrow> (l0 @ validation_calls registry cands @ fst ?w, Some ex)
       | None \<Rightarrow> (l0 @ validation_calls registry cands @ fst ?w @
            [ReplyText (add_message ?A (spec_already_tracked e registry cands)
               (spec_failed e registry cands))], None))"
    unfolding cands by (simp only: process_repo_addition_run [OF it ne small load] Let_def)
  have writes: "filter is_write (fst (process_repo_addition e text)) =
      (if ?A \<noteq> [] then [HttpPut (github_file_url e) (github_headers e)
          (save_payload (str_list (registry @ ?A)) t)] else [])"
    by (cases "snd ?w")
      (simp_all add: run l0 save_if_calls validation_calls_def is_write_def filter_map comp_def)
  have iff: "(\<exists>c\<in>set (fst (process_repo_addition e text)). is_write c) \<longleftrightarrow> ?A \<noteq> []"
  proof -
    have "(\<exists>c\<in>set (fst (process_repo_addition e text)). is_write c)
        \<longleftrightarrow> filter is_write (fst (process_repo_addition e text)) \<noteq> []"
      by (simp add: filter_empty_conv)
    then show ?thesis by (simp add: writes)
  qed
  have count: "count_list (registry @ ?A) c = (if c \<in> set ?A then 1 else count_list registry c)" for c
  proof (cases "c \<in> set ?A")
    case True
    with fresh have "c \<notin> set registry" by auto
    with True dA show ?thesis by (simp add: count_list_distinct)
  next
    case False
    then show ?thesis by simp
  qed
  have dist: "distinct registry \<longrightarrow> distinct (registry @ ?A)"
    using dA fresh by auto
  have only: "process_repo_addition e text = (l0 @ [ReplyText (add_message [] cands [])], None)"
    if "set cands \<subseteq> set registry"
  proof -
    from that have a: "?A = []" and s: "spec_already_tracked e registry cands = cands"
      and f: "spec_failed e registry cands = []" and v: "validation_calls registry cands = []"
      by (auto simp: spec_added_def spec_already_tracked_def spec_failed_def validation_calls_def
          add_outcome_iff filter_empty_conv filter_id_conv)
    show ?thesis by (simp add: run a s f v save_if_none_calls)
  qed
  from loop writes iff count dist only show ?thesis by blast
qed

theorem add_path_reconciliation_witness:
  "add_loop (sample [''a/b'', ''c/d'', ''e/f'', ''g/h'']) [''a/b'', ''c/d'', ''e/f'', ''g/h'']
     (str_list [''a/b''], [], [], [],
      [HttpGet ''https://api.github.com/repos/owner/tracker/contents/data/tracked.json''
         [(''Authorization'', ''token secret'')]])
   = Inr (str_list [''a/b'', ''c/d''], [''c/d''], [''a/b''],
      [''e/f'', ''g/h (error: timed out)''],
      [HttpGet ''https://api.github.com/repos/owner/tracker/contents/data/tracked.json''
         [(''Authorization'', ''token secret'')],
       HttpGet ''https://api.github.com/repos/c/d'' [],
       HttpGet ''https://api.github.com/repos/e/f'' [],
       HttpGet ''https://api.github.com/repos/g/h'' []])
   \<and> filter is_write
       (fst (process_repo_addition (sample [''a/b'', ''c/d'', ''e/f'', ''g/h''])
          ''a/b, c/d e/f g/h''))
     = [HttpPut ''https://api.github.com/repos/owner/tracker/contents/data/tracked.json''
          [(''Authorization'', ''token secret'')]
          (save_payload (str_list [''a/b'', ''c/d'']) (JStr ''v1''))]"
proof -
  let ?e = "sample [''a/b'', ''c/d'', ''e/f'', ''g/h'']"
  have it: "iterates ?e (extract_repos_from_text ''a/b, c/d e/f g/h'')"
    by (simp add: iterates_def sample_iter sample_extract_add)
  have ne: "extract_repos_from_text ''a/b, c/d e/f g/h'' \<noteq> {}"
    by (simp add: sample_extract_add)
  have small: "card (extract_repos_from_text ''a/b, c/d e/f g/h'') \<le> 20"
    by (simp add: sample_extract_add)
  have cands: "[''a/b'', ''c/d'', ''e/f'', ''g/h'']
      = set_iter ?e (extract_repos_from_text ''a/b, c/d e/f g/h'')"
    by (simp add: sample_iter)
  have A: "spec_added ?e [''a/b''] [''a/b'', ''c/d'', ''e/f'', ''g/h''] = [''c/d'']"
    and S: "spec_already_tracked ?e [''a/b''] [''a/b'', ''c/d'', ''e/f'', ''g/h''] = [''a/b'']"
    and F: "spec_failed ?e [''a/b''] [''a/b'', ''c/d'', ''e/f'', ''g/h'']
        = [''e/f'', ''g/h (error: timed out)'']"
    and V: "validation_calls [''a/b''] [''a/b'', ''c/d'', ''e/f'', ''g/h'']
        = [HttpGet ''https://api.github.com/repos/c/d'' [],
           HttpGet ''https://api.github.com/repos/e/f'' [],
           HttpGet ''https://api.github.com/repos/g/h'' []]"
    by (simp_all add: spec_added_def spec_already_tracked_def spec_failed_def add_outcome_def
        sample_validation failure_report_def failed_entry_def str_of_def validation_calls_def
        repo_url_def)
  from add_path_reconciliation [OF it ne small sample_load cands]
  show ?thesis by (simp add: A S F V sample_url sample_headers)
qed

text \<open>
  Claim C2. One remove batch, read against the registry just loaded. A candidate in the
  registry is taken out of the working list (one occurrence, as \<^verbatim>\<open>list.remove\<close> does) and
  listed as removed; an absent candidate is listed as not tracked and changes nothing.
  The handler writes to the store exactly when the removed list is not empty, and then
  once, the remaining list under the token that was read. In a registry without
  duplicates the remaining identifiers are the registry's without the candidates. When no
  candidate is tracked the working list is the registry, and the handler reads, replies
  and does nothing else.
\<close>

theorem remove_path_reconciliation:
  assumes it: "iterates e (extract_repos_from_text (join '' '' args))"
    and args: "args \<noteq> []"
    and ne: "extract_repos_from_text (join '' '' args) \<noteq> {}"
    and load: "load_tracked e = (l0, Inr (str_list registry, t))"
    and cands: "cands = set_iter e (extract_repos_from_text (join '' '' args))"
  shows "remove_loop cands (str_list registry, [], []) =
           Inr (str_list (spec_remaining registry cands), spec_removed registry cands,
            spec_not_tracked registry cands)
       \<and> filter is_write (fst (remove_cmd e args)) =
           (if spec_removed registry cands \<noteq> []
            then [HttpPut (github_file_url e) (github_headers e)
                    (save_payload (str_list (spec_remaining registry cands)) t)]
            else [])
       \<and> ((\<exists>c\<in>set (fst (remove_cmd e args)). is_write c)
            \<longleftrightarrow> spec_removed registry cands \<noteq> [])
       \<and> (\<forall>c. count_list (spec_remaining registry cands) c =
              count_list registry c - (if c \<in> set cands then 1 else 0))
       \<and> (distinct registry \<longrightarrow>
            set (spec_remaining registry cands) = set registry - set cands
            \<and> distinct (spec_remaining registry cands))
       \<and> (set cands \<inter> set registry = {} \<longrightarrow>
            spec_remaining registry cands = registry
            \<and> remove_cmd e args = (l0 @ [ReplyText (remove_message [] cands)], None))"
proof -
  let ?R = "spec_removed registry cands"
  let ?w = "save_if (?R \<noteq> []) e (str_list (spec_remaining registry cands)) t"
  from it cands have d: "distinct cands" by (simp add: iterates_def)
  have l0: "l0 = [HttpGet (github_file_url e) (github_headers e)]"
    using load load_tracked_calls [of e] by simp
  have dR: "distinct ?R" using d by (simp add: spec_removed_def)
  have loop: "remove_loop cands (str_list registry, [], []) =
      Inr (str_list (spec_remaining registry cands), ?R, spec_not_tracked registry cands)"
    using remove_loop_closed [OF d, of registry "[]" "[]"] by simp
  have run: "remove_cmd e args =
      (case snd ?w of
         Some ex \<Rightarrow> (l0 @ fst ?w, Some ex)
       | None \<Rightarrow> (l0 @ fst ?w @
            [ReplyText (remove_message ?R (spec_not_tracked registry cands))], None))"
    unfolding cands by (simp only: remove_cmd_run [OF it args ne load] Let_def)
  have writes: "filter is_write (fst (remove_cmd e args)) =
      (if ?R \<noteq> [] then [HttpPut (github_file_url e) (github_headers e)
          (save_payload (str_list (spec_remaining registry cands)) t)] else [])"
    by (cases "snd ?w") (simp_all add: run l0 save_if_calls is_write_def)
  have iff: "(\<exists>c\<in>set (fst (remove_cmd e args)). is_write c) \<longleftrightarrow> ?R \<noteq> []"
  proof -
    have "(\<exists>c\<in>set (fst (remove_cmd e args)). is_write c)
        \<longleftrightarrow> filter is_write (fst (remove_cmd e args)) \<noteq> []"
      by (simp add: filter_empty_conv)
    then show ?thesis by (simp add: writes)
  qed
  have count: "count_list (spec_remaining registry cands) c =
      count_list registry c - (if c \<in> set cands then 1 else 0)" for c
  proof (cases "c \<in> set registry")
    case True
    then have "c \<in> set ?R \<longleftrightarrow> c \<in> set cands"
      by (simp add: spec_removed_def remove_outcome_iff)
    then show ?thesis
      using count_list_fold_remove1 [OF dR, of registry c] by (simp add: spec_remaining_def)
  next
    case False
    then have "c \<notin> set ?R" by (simp add: spec_removed_def remove_outcome_iff)
    with False show ?thesis
      using count_list_fold_remove1 [OF dR, of registry c] by (simp add: spec_remaining_def)
  qed
  have dist: "distinct registry \<longrightarrow>
      set (spec_remaining registry cands) = set registry - set cands
      \<and> distinct (spec_remaining registry cands)"
    using spec_remaining_distinct [of registry cands] by simp
  have none: "spec_remaining registry cands = registry
      \<and> remove_cmd e args = (l0 @ [ReplyText (remove_message [] cands)], None)"
    if "set cands \<inter> set registry = {}"
  proof -
    from that have r: "?R = []" and n: "spec_not_tracked registry cands = cands"
      by (auto simp: spec_removed_def spec_not_tracked_def remove_outcome_iff
          filter_empty_conv filter_id_conv)
    have "spec_remaining registry cands = registry" by (simp add: spec_remaining_def r)
    then show ?thesis by (simp add: run r n save_if_none_calls)
  qed
  from loop writes iff count dist none show ?thesis by blast
qed

theorem remove_path_reconciliation_witness:
  "remove_loop [''a/b'', ''x/y''] (str_list [''a/b''], [], [])
     = Inr (str_list [], [''a/b''], [''x/y''])
   \<and> filter is_write (fst (remove_cmd (sample [''a/b'', ''x/y'']) [''a/b'', ''x/y'']))
     = [HttpPut ''https://api.github.com/repos/owner/tracker/contents/data/tracked.json''
          [(''Authorization'', ''token secret'')] (save_payload (str_list []) (JStr ''v1''))]"
proof -
  let ?e = "sample [''a/b'', ''x/y'']"
  have it: "iterates ?e (extract_repos_from_text (join '' '' [''a/b'', ''x/y'']))"
    by (simp only: sample_extract_remove) (simp add: iterates_def sample_iter)
  have args: "[''a/b'', ''x/y''] \<noteq> []" by simp
  have ne: "extract_repos_from_text (join '' '' [''a/b'', ''x/y'']) \<noteq> {}"
    by (simp only: sample_extract_remove) simp
  have cands: "[''a/b'', ''x/y'']
      = set_iter ?e (extract_repos_from_text (join '' '' [''a/b'', ''x/y'']))"
    by (simp add: sample_iter)
  have R: "spec_removed [''a/b''] [''a/b'', ''x/y''] = [''a/b'']"
    and N: "spec_not_tracked [''a/b''] [''a/b'', ''x/y''] = [''x/y'']"
    and W: "spec_remaining [''a/b''] [''a/b'', ''x/y''] = []"
    by (simp_all add: spec_removed_def spec_not_tracked_def spec_remaining_def remove_outcome_def)
  from remove_path_reconciliation [OF it args ne sample_load cands]
  show ?thesis by (simp add: R N W sample_url sample_headers)
qed

text \<open>
  Claim C3. When the text yields more than 20 distinct identifiers, the add operation
  (the handler of free text, and the \<^verbatim>\<open>/add\<close> command with arguments) replies that the batch
  is too large and does nothing else: no request is sent to the validator or to the
  store, so nothing is processed or written. With exactly 20 identifiers the batch is not
  rejected: the handler goes on to read the registry.
\<close>

theorem batch_ceiling:
  "(card (extract_repos_from_text text) > 20 \<longrightarrow>
      process_repo_addition e text = ([ReplyText too_many_message], None))
   \<and> (\<not> prefix ''/'' text \<and> card (extract_repos_from_text text) > 20 \<longrightarrow>
      any_message e text = ([ReplyText too_many_message], None))
   \<and> (args \<noteq> [] \<and> card (extract_repos_from_text (join '' '' args)) > 20 \<longrightarrow>
      add_cmd e args = ([ReplyText too_many_message], None))
   \<and> (card (extract_repos_from_text text) = 20 \<longrightarrow>
      (\<exists>rest res. process_repo_addition e text =
         (HttpGet (github_file_url e) (github_headers e) # rest, res)))"
proof -
  have big: "process_repo_addition e s = ([ReplyText too_many_message], None)"
    if "card (extract_repos_from_text s) > 20" for s
  proof -
    from that have "extract_repos_from_text s \<noteq> {}" by auto
    with that show ?thesis by (simp add: process_repo_addition_def Let_def)
  qed
  have twenty: "\<exists>rest res. process_repo_addition e text =
      (HttpGet (github_file_url e) (github_headers e) # rest, res)"
    if c: "card (extract_repos_from_text text) = 20"
  proof -
    from c have ne: "extract_repos_from_text text \<noteq> {}" by auto
    obtain l0 r where load: "load_tracked e = (l0, r)" by (cases "load_tracked e")
    with load_tracked_calls [of e] have l0: "l0 = [HttpGet (github_file_url e) (github_headers e)]"
      by simp
    show ?thesis
    proof (cases r)
      case (Inl ex)
      with ne c load l0 show ?thesis by (simp add: process_repo_addition_def Let_def)
    next
      case (Inr v)
      obtain registry t where v: "v = (registry, t)" by (cases v)
      consider (raised) u ex where
          "add_loop e (set_iter e (extract_repos_from_text text)) (registry, [], [], [], l0)
             = Inl (l0 @ u, ex)"
        | (ran) rs a s f u where
          "add_loop e (set_iter e (extract_repos_from_text text)) (registry, [], [], [], l0)
             = Inr (rs, a, s, f, l0 @ u)"
        using add_loop_extends
          [of e "set_iter e (extract_repos_from_text text)" registry "[]" "[]" "[]" l0]
        by blast
      then show ?thesis
      proof cases
        case raised
        then show ?thesis
          using ne c load Inr v l0 by (simp add: process_repo_addition_def Let_def)
      next
        case ran
        obtain l1 x where w: "save_if (a \<noteq> []) e rs t = (l1, x)"
          by (cases "save_if (a \<noteq> []) e rs t")
        show ?thesis
          using ne c load Inr v ran w l0
          by (cases x) (simp_all add: process_repo_addition_def Let_def)
      qed
    qed
  qed
  from big [of "text"] big [of "join '' '' args"] twenty show ?thesis
    by (auto simp: add_cmd_def any_message_def)
qed

theorem batch_ceiling_witness:
  "process_repo_addition (sample []) batch_of_21 = ([ReplyText too_many_message], None)
   \<and> any_message (sample []) batch_of_21 = ([ReplyText too_many_message], None)
   \<and> add_cmd (sample []) [batch_of_21] = ([ReplyText too_many_message], None)
   \<and> (\<exists>rest res. process_repo_addition (sample []) batch_of_20
       = (HttpGet ''https://api.github.com/repos/owner/tracker/contents/data/tracked.json''
            [(''Authorization'', ''token secret'')] # rest, res))"
proof -
  have args: "[batch_of_21] \<noteq> []" by simp
  have c: "card (extract_repos_from_text (join '' '' [batch_of_21])) > 20"
    using card21 by simp
  have free: "\<not> prefix ''/'' batch_of_21" by (simp add: batch_of_21_def)
  from batch_ceiling [of batch_of_21 "sample []" "[batch_of_21]"] card21 args c free
  have a: "process_repo_addition (sample []) batch_of_21 = ([ReplyText too_many_message], None)"
    and m: "any_message (sample []) batch_of_21 = ([ReplyText too_many_message], None)"
    and b: "add_cmd (sample []) [batch_of_21] = ([ReplyText too_many_message], None)"
    by blast+
  from batch_ceiling [of batch_of_20 "sample []" "[]"] card20
  have "\<exists>rest res. process_repo_addition (sample []) batch_of_20
       = (HttpGet (github_file_url (sample [])) (github_headers (sample [])) # rest, res)"
    by blast
  with a m b show ?thesis by (simp add: sample_url sample_headers)
qed

text \<open>
  Claim C5. In an add batch the validation of one candidate cannot end the batch. The
  handler ends with an exception only when the write does; every candidate outside the
  registry is validated, whatever happened to the ones before it; a candidate whose
  validation raises is listed as failed with the text of the error, and is not added;
  every candidate ends in one of the three lists. When the write does not fail the
  handler's last effect is one reply, and its text is the added identifiers under their
  heading, then the identifiers already tracked under theirs, then the failed entries
  under theirs: every entry of the three lists stands in the text sent, and so does, for
  a candidate whose validation raised, the candidate with the text of its error.
\<close>

theorem validation_failure_containment:
  assumes it: "iterates e (extract_repos_from_text text)"
    and ne: "extract_repos_from_text text \<noteq> {}"
    and small: "card (extract_repos_from_text text) \<le> 20"
    and load: "load_tracked e = (l0, Inr (str_list registry, t))"
    and cands: "cands = set_iter e (extract_repos_from_text text)"
    and lists: "A = spec_added e registry cands" "S = spec_already_tracked e registry cands"
      "F = spec_failed e registry cands"
    and save: "w = save_if (A \<noteq> []) e (str_list (registry @ A)) t"
    and reply: "msg =
        (if A = [] then [] else CHECK_MARK @ '' Added:'' @ [newline] @ join [newline] A) @
        (if S = [] then []
         else [newline] @ NEXT_TRACK @ '' Already tracking:'' @ [newline] @ join [newline] S) @
        (if F = [] then []
         else [newline] @ CROSS_MARK @ '' Invalid or inaccessible:'' @ [newline] @
              join [newline] F)"
  shows "snd (process_repo_addition e text) = snd w
       \<and> filter is_request (fst (process_repo_addition e text)) =
           l0 @ validation_calls registry cands @ fst w
       \<and> (snd w = None \<longrightarrow>
            fst (process_repo_addition e text) =
              l0 @ validation_calls registry cands @ fst w @ [ReplyText msg])
       \<and> add_message A S F = msg
       \<and> (\<forall>x\<in>set A \<union> set S \<union> set F. sublist x msg)
       \<and> (\<forall>c\<in>set cands. \<forall>m. c \<notin> set registry \<and> http_get e (repo_url c) [] = Inl m \<longrightarrow>
            c @ '' (error: '' @ m @ '')'' \<in> set F
            \<and> sublist (c @ '' (error: '' @ m @ '')'') msg
            \<and> c \<notin> set (registry @ A))
       \<and> length A + length S + length F = length cands"
proof -
  have l0: "l0 = [HttpGet (github_file_url e) (github_headers e)]"
    using load load_tracked_calls [of e] by simp
  have run: "process_repo_addition e text =
      (case snd w of
         Some ex \<Rightarrow> (l0 @ validation_calls registry cands @ fst w, Some ex)
       | None \<Rightarrow> (l0 @ validation_calls registry cands @ fst w @
            [ReplyText (add_message A S F)], None))"
    unfolding cands save lists
    by (simp only: process_repo_addition_run [OF it ne small load] Let_def)
  have req: "filter is_request (l0 @ validation_calls registry cands @ fst w) =
      l0 @ validation_calls registry cands @ fst w"
    by (simp add: l0 save save_if_calls validation_calls_def is_request_def filter_map comp_def)
  have r5: "length A + length S + length F = length cands"
    unfolding lists spec_added_def spec_already_tracked_def spec_failed_def
    by (induction cands) (auto simp: add_outcome_def)
  from it ne cands have "cands \<noteq> []" by (auto simp: iterates_def)
  with r5 have some: "A \<noteq> [] \<or> S \<noteq> [] \<or> F \<noteq> []" by auto
  have r4: "add_message A S F = msg"
    unfolding reply by (rule add_message_text [OF some])
  have r1: "snd (process_repo_addition e text) = snd w"
    by (cases "snd w") (simp_all add: run)
  have r2: "filter is_request (fst (process_repo_addition e text)) =
      l0 @ validation_calls registry cands @ fst w"
    using req by (cases "snd w") (simp_all add: run is_request_def)
  have r3: "snd w = None \<longrightarrow> fst (process_repo_addition e text) =
      l0 @ validation_calls registry cands @ fst w @ [ReplyText msg]"
    by (simp add: run r4)
  have r6: "sublist x msg" if "x \<in> set A \<union> set S \<union> set F" for x
    unfolding reply using that by (rule message_lists_all)
  have r7: "c @ '' (error: '' @ m @ '')'' \<in> set F
      \<and> sublist (c @ '' (error: '' @ m @ '')'') msg
      \<and> c \<notin> set (registry @ A)"
    if c: "c \<in> set cands" "c \<notin> set registry" and m: "http_get e (repo_url c) [] = Inl m" for c m
  proof -
    from m have v: "validation e c = Inl (RequestException m)"
      by (simp add: validation_def validate_repo_exists_def Let_def)
    then have o: "add_outcome e registry c = Failed"
      using c by (simp add: add_outcome_def)
    have "failure_report e c = c @ '' (error: '' @ m @ '')''"
      by (simp add: failure_report_def v failed_entry_def str_of_def)
    with c o have f: "c @ '' (error: '' @ m @ '')'' \<in> set F"
      unfolding lists by (force simp: spec_failed_def)
    then have "sublist (c @ '' (error: '' @ m @ '')'') msg" using r6 by blast
    moreover from o c have "c \<notin> set (registry @ A)" unfolding lists by (simp add: spec_added_def)
    ultimately show ?thesis using f by simp
  qed
  from r1 r2 r3 r4 r5 r6 r7 show ?thesis by blast
qed

theorem validation_failure_containment_witness:
  "process_repo_addition (sample [''a/b'', ''c/d'', ''e/f'', ''g/h'']) ''a/b, c/d e/f g/h''
   = ([HttpGet ''https://api.github.com/repos/owner/tracker/contents/data/tracked.json''
         [(''Authorization'', ''token secret'')],
       HttpGet ''https://api.github.com/repos/c/d'' [],
       HttpGet ''https://api.github.com/repos/e/f'' [],
       HttpGet ''https://api.github.com/repos/g/h'' [],
       HttpPut ''https://api.github.com/repos/owner/tracker/contents/data/tracked.json''
         [(''Authorization'', ''token secret'')]
         (save_payload (str_list [''a/b'', ''c/d'']) (JStr ''v1'')),
       ReplyText
         (CHECK_MARK @ '' Added:'' @ [newline] @ ''c/d'' @ [newline] @
          NEXT_TRACK @ '' Already tracking:'' @ [newline] @ ''a/b'' @ [newline] @
          CROSS_MARK @ '' Invalid or inaccessible:'' @ [newline] @ ''e/f'' @ [newline] @
          ''g/h (error: timed out)'')],
      None)
   \<and> sublist ''g/h (error: timed out)''
       (add_message [''c/d''] [''a/b''] [''e/f'', ''g/h (error: timed out)''])"
proof -
  let ?e = "sample [''a/b'', ''c/d'', ''e/f'', ''g/h'']"
  let ?w = "([HttpPut ''https://api.github.com/repos/owner/tracker/contents/data/tracked.json''
         [(''Authorization'', ''token secret'')]
         (save_payload (str_list [''a/b'', ''c/d'']) (JStr ''v1''))],
       None :: exn option)"
  let ?msg = "CHECK_MARK @ '' Added:'' @ [newline] @ ''c/d'' @ [newline] @
          NEXT_TRACK @ '' Already tracking:'' @ [newline] @ ''a/b'' @ [newline] @
          CROSS_MARK @ '' Invalid or inaccessible:'' @ [newline] @ ''e/f'' @ [newline] @
          ''g/h (error: timed out)''"
  have it: "iterates ?e (extract_repos_from_text ''a/b, c/d e/f g/h'')"
    by (simp add: iterates_def sample_iter sample_extract_add)
  have ne: "extract_repos_from_text ''a/b, c/d e/f g/h'' \<noteq> {}"
    by (simp add: sample_extract_add)
  have small: "card (extract_repos_from_text ''a/b, c/d e/f g/h'') \<le> 20"
    by (simp add: sample_extract_add)
  have cands: "[''a/b'', ''c/d'', ''e/f'', ''g/h'']
      = set_iter ?e (extract_repos_from_text ''a/b, c/d e/f g/h'')"
    by (simp add: sample_iter)
  have A: "[''c/d''] = spec_added ?e [''a/b''] [''a/b'', ''c/d'', ''e/f'', ''g/h'']"
    and S: "[''a/b''] = spec_already_tracked ?e [''a/b''] [''a/b'', ''c/d'', ''e/f'', ''g/h'']"
    and F: "[''e/f'', ''g/h (error: timed out)'']
        = spec_failed ?e [''a/b''] [''a/b'', ''c/d'', ''e/f'', ''g/h'']"
    and V: "validation_calls [''a/b''] [''a/b'', ''c/d'', ''e/f'', ''g/h'']
        = [HttpGet ''https://api.github.com/repos/c/d'' [],
           HttpGet ''https://api.github.com/repos/e/f'' [],
           HttpGet ''https://api.github.com/repos/g/h'' []]"
    by (simp_all add: spec_added_def spec_already_tracked_def spec_failed_def add_outcome_def
        sample_validation failure_report_def failed_entry_def str_of_def validation_calls_def
        repo_url_def)
  have save: "?w = save_if ([''c/d''] \<noteq> []) ?e (str_list ([''a/b''] @ [''c/d''])) (JStr ''v1'')"
    by (simp add: save_if_def sample_save)
  have reply: "?msg =
        (if [''c/d''] = [] then []
         else CHECK_MARK @ '' Added:'' @ [newline] @ join [newline] [''c/d'']) @
        (if [''a/b''] = [] then []
         else [newline] @ NEXT_TRACK @ '' Already tracking:'' @ [newline] @
              join [newline] [''a/b'']) @
        (if [''e/f'', ''g/h (error: timed out)''] = [] then []
         else [newline] @ CROSS_MARK @ '' Invalid or inaccessible:'' @ [newline] @
              join [newline] [''e/f'', ''g/h (error: timed out)''])"
    by simp
  have failing: "''g/h'' \<in> set [''a/b'', ''c/d'', ''e/f'', ''g/h''] \<and> ''g/h'' \<notin> set [''a/b'']
      \<and> http_get ?e (repo_url ''g/h'') [] = Inl ''timed out''"
    by (simp add: repo_url_def sample_def sample_env_def sample_get_def)
  note th = validation_failure_containment [OF it ne small sample_load cands A S F save reply]
  from th have run: "fst (process_repo_addition ?e ''a/b, c/d e/f g/h'') =
      [HttpGet ''https://api.github.com/repos/owner/tracker/contents/data/tracked.json''
         [(''Authorization'', ''token secret'')]] @
      validation_calls [''a/b''] [''a/b'', ''c/d'', ''e/f'', ''g/h''] @ fst ?w @ [ReplyText ?msg]"
    and res: "snd (process_repo_addition ?e ''a/b, c/d e/f g/h'') = snd ?w"
    and sent: "add_message [''c/d''] [''a/b''] [''e/f'', ''g/h (error: timed out)''] = ?msg"
    by simp_all
  from th failing have "sublist (''g/h'' @ '' (error: '' @ ''timed out'' @ '')'') ?msg"
    by blast
  then have "sublist ''g/h (error: timed out)''
      (add_message [''c/d''] [''a/b''] [''e/f'', ''g/h (error: timed out)''])"
    by (simp only: sent) simp
  with run res show ?thesis
    by (simp add: V prod_eq_iff)
qed

text \<open>
  Claim C9. Called by anyone but the configured administrator, \<^verbatim>\<open>clearall\<close> replies with
  the denial and does nothing else: it neither reads nor writes the registry. Called by
  the administrator, it reads the document and, whatever the read returns as the list,
  writes the empty list under the token that was read; when the store accepts the write
  it confirms with one reply and that is all it does, and when the write fails the
  failure ends the handler. So for every document the store can hold under the key or
  beside it, and for no document at all, the one write of the handler is that of the
  empty list. When the read fails, the failure ends the handler before any write.
\<close>

theorem clearall_authorization:
  "(user_id \<noteq> ADMIN_ID e \<longrightarrow> clearall_cmd e user_id = ([ReplyText only_admin_message], None))
   \<and> (user_id = ADMIN_ID e \<and> snd (load_tracked e) = Inr (held, t)
        \<and> snd (save_tracked e (JArr []) t) = Inr new_token \<longrightarrow>
        clearall_cmd e user_id =
          ([HttpGet (github_file_url e) (github_headers e),
            HttpPut (github_file_url e) (github_headers e) (save_payload (JArr []) t),
            ReplyText cleared_message], None))
   \<and> (user_id = ADMIN_ID e \<and> snd (load_tracked e) = Inr (held, t)
        \<and> snd (save_tracked e (JArr []) t) = Inl ex \<longrightarrow>
        clearall_cmd e user_id =
          ([HttpGet (github_file_url e) (github_headers e),
            HttpPut (github_file_url e) (github_headers e) (save_payload (JArr []) t)],
           Some ex))
   \<and> (user_id = ADMIN_ID e \<and> snd (load_tracked e) = Inl ex \<longrightarrow>
        clearall_cmd e user_id = ([HttpGet (github_file_url e) (github_headers e)], Some ex))
   \<and> (user_id = ADMIN_ID e
        \<and> http_get e (github_file_url e) (github_headers e) = Inr r
        \<and> \<not> (400 \<le> status_code r \<and> status_code r < 600) \<and> body r = Some doc
        \<and> decode_document (float_repr e) doc = Inr (JObj kvs)
        \<and> getitem doc ''sha'' = Inr t \<longrightarrow>
        filter is_write (fst (clearall_cmd e user_id)) =
          [HttpPut (github_file_url e) (github_headers e) (save_payload (JArr []) t)])
   \<and> (user_id = ADMIN_ID e
        \<and> http_get e (github_file_url e) (github_headers e) = Inr r
        \<and> status_code r = 404 \<longrightarrow>
        filter is_write (fst (clearall_cmd e user_id)) =
          [HttpPut (github_file_url e) (github_headers e) (save_payload (JArr []) JNull)])
   \<and> save_payload (JArr []) t =
        \<lparr>payload_message = ''Bot update tracked repos'',
         payload_content = b64encode (json_dumps_indent2 (JObj [(''repos'', JArr [])])),
         payload_sha = t\<rparr>
   \<and> json_dumps_indent2 (JObj [(''repos'', JArr [])]) =
        ''{'' @ [newline] @ ''  '' @ [dquote] @ ''repos'' @ [dquote] @ '': []'' @ [newline] @ ''}''"
proof -
  let ?get = "HttpGet (github_file_url e) (github_headers e)"
  let ?put = "\<lambda>t. HttpPut (github_file_url e) (github_headers e) (save_payload (JArr []) t)"
  have load: "load_tracked e = ([?get], snd (load_tracked e))"
    using load_tracked_calls [of e] by (simp add: prod_eq_iff)
  have save: "save_tracked e (JArr []) t = ([?put t], snd (save_tracked e (JArr []) t))" for t
    using save_tracked_calls [of e "JArr []" t] by (simp add: prod_eq_iff)
  have run: "clearall_cmd e user_id =
      (case snd (save_tracked e (JArr []) t) of
         Inl ex \<Rightarrow> ([?get, ?put t], Some ex)
       | Inr new_token \<Rightarrow> ([?get, ?put t, ReplyText cleared_message], None))"
    if "user_id = ADMIN_ID e" and "snd (load_tracked e) = Inr (held, t)" for held t
  proof -
    from that(2) load have l: "load_tracked e = ([?get], Inr (held, t))" by simp
    obtain res where s: "save_tracked e (JArr []) t = ([?put t], res)"
      using save [of t] by blast
    show ?thesis
      using that(1) by (cases res) (simp_all add: clearall_cmd_def l s)
  qed
  have writes: "filter is_write (fst (clearall_cmd e user_id)) = [?put t]"
    if "user_id = ADMIN_ID e" and "snd (load_tracked e) = Inr (held, t)" for held t
    by (cases "snd (save_tracked e (JArr []) t)")
      (simp_all add: run [OF that] is_write_def)
  have a: "clearall_cmd e user_id = ([?get, ?put t, ReplyText cleared_message], None)"
    if "user_id = ADMIN_ID e" and "snd (load_tracked e) = Inr (held, t)"
      and "snd (save_tracked e (JArr []) t) = Inr new_token"
    using run [OF that(1,2)] that(3) by simp
  have b: "clearall_cmd e user_id = ([?get, ?put t], Some ex)"
    if "user_id = ADMIN_ID e" and "snd (load_tracked e) = Inr (held, t)"
      and "snd (save_tracked e (JArr []) t) = Inl ex"
    using run [OF that(1,2)] that(3) by simp
  have c: "clearall_cmd e user_id = ([?get], Some ex)"
    if "user_id = ADMIN_ID e" and "snd (load_tracked e) = Inl ex"
  proof -
    from that(2) load have "load_tracked e = ([?get], Inl ex)" by simp
    with that(1) show ?thesis by (simp add: clearall_cmd_def)
  qed
  have d: "filter is_write (fst (clearall_cmd e user_id)) = [?put t]"
    if "user_id = ADMIN_ID e" and "http_get e (github_file_url e) (github_headers e) = Inr r"
      and "\<not> (400 \<le> status_code r \<and> status_code r < 600)" and "body r = Some doc"
      and "decode_document (float_repr e) doc = Inr (JObj kvs)" and "getitem doc ''sha'' = Inr t"
  proof -
    from load_tracked_present [OF that(2-6)]
    have "snd (load_tracked e) =
        Inr (case dict_get kvs ''repos'' of None \<Rightarrow> JArr [] | Some v \<Rightarrow> v, t)"
      by simp
    with that(1) show ?thesis by (rule writes)
  qed
  have f: "filter is_write (fst (clearall_cmd e user_id)) = [?put JNull]"
    if "user_id = ADMIN_ID e" and "http_get e (github_file_url e) (github_headers e) = Inr r"
      and "status_code r = 404"
  proof -
    from load_tracked_absent [OF that(2,3)] have "snd (load_tracked e) = Inr (JArr [], JNull)"
      by simp
    with that(1) show ?thesis by (rule writes)
  qed
  have g: "save_payload (JArr []) t =
      \<lparr>payload_message = ''Bot update tracked repos'',
       payload_content = b64encode (json_dumps_indent2 (JObj [(''repos'', JArr [])])),
       payload_sha = t\<rparr>"
    by (simp add: save_payload_def str_encode_def registry_document_def)
  have h: "json_dumps_indent2 (JObj [(''repos'', JArr [])]) =
      ''{'' @ [newline] @ ''  '' @ [dquote] @ ''repos'' @ [dquote] @ '': []'' @ [newline] @ ''}''"
    by (simp add: json_dumps_indent2_def newline_indent_def
        encode_str_def escape_ascii_char_def dquote_def backslash_def replicate_numeral_unfold)
  have n: "user_id \<noteq> ADMIN_ID e \<longrightarrow> clearall_cmd e user_id = ([ReplyText only_admin_message], None)"
    by (simp add: clearall_cmd_def)
  from n a b c d f g h show ?thesis by blast
qed

theorem clearall_authorization_witness:
  "clearall_cmd (sample []) 42 = ([ReplyText only_admin_message], None)
   \<and> clearall_cmd (sample []) 123456 =
       ([HttpGet ''https://api.github.com/repos/owner/tracker/contents/data/tracked.json''
           [(''Authorization'', ''token secret'')],
         HttpPut ''https://api.github.com/repos/owner/tracker/contents/data/tracked.json''
           [(''Authorization'', ''token secret'')]
           \<lparr>payload_message = ''Bot update tracked repos'',
            payload_content = ''ewogICJyZXBvcyI6IFtdCn0='', payload_sha = JStr ''v1''\<rparr>,
         ReplyText cleared_message], None)
   \<and> clearall_cmd (serving ''eyJyZXBvcyI6ICJhL2JjL2QifQ=='' (JStr ''v7'')) 123456 =
       ([HttpGet ''https://api.github.com/repos/owner/tracker/contents/data/tracked.json''
           [(''Authorization'', ''token secret'')],
         HttpPut ''https://api.github.com/repos/owner/tracker/contents/data/tracked.json''
           [(''Authorization'', ''token secret'')]
           \<lparr>payload_message = ''Bot update tracked repos'',
            payload_content = ''ewogICJyZXBvcyI6IFtdCn0='', payload_sha = JStr ''v7''\<rparr>,
         ReplyText cleared_message], None)
   \<and> clearall_cmd (answering 503) 123456 =
       ([HttpGet ''https://api.github.com/repos/owner/tracker/contents/data/tracked.json''
           [(''Authorization'', ''token secret'')]], Some (HTTPError 503))"
proof -
  let ?s = "serving ''eyJyZXBvcyI6ICJhL2JjL2QifQ=='' (JStr ''v7'')"
  have admin: "123456 = ADMIN_ID (sample [])" "123456 = ADMIN_ID ?s"
    "123456 = ADMIN_ID (answering 503)" "42 \<noteq> ADMIN_ID (sample [])"
    by (simp_all add: sample_def serving_def answering_def sample_env_def)
  have l1: "snd (load_tracked (sample [])) = Inr (str_list [''a/b''], JStr ''v1'')"
    by (simp add: sample_load)
  have s1: "snd (save_tracked (sample []) (JArr []) (JStr ''v1'')) = Inr (JStr ''v2'')"
    by (simp add: sample_save)
  have l2: "snd (load_tracked ?s) = Inr (JStr ''a/bc/d'', JStr ''v7'')"
    by (simp add: string_document_load)
  have s2: "snd (save_tracked ?s (JArr []) (JStr ''v7'')) = Inr (JStr ''v2'')"
    by (simp add: save_tracked_def serving_def sample_env_def sample_put_def Let_def
        raise_for_status_def response_json_def then_do_def getitem_def dict_get_def)
  have l3: "snd (load_tracked (answering 503)) = Inl (HTTPError 503)"
    by (simp add: load_tracked_def answering_def sample_env_def Let_def raise_for_status_def)
  have u3: "github_file_url (answering 503) =
      ''https://api.github.com/repos/owner/tracker/contents/data/tracked.json''"
    and h3: "github_headers (answering 503) = [(''Authorization'', ''token secret'')]"
    by (simp_all add: github_file_url_def github_headers_def answering_def sample_env_def
        DATA_PATH_def)
  from clearall_authorization [of 42 "sample []"] admin(4)
  have a: "clearall_cmd (sample []) 42 = ([ReplyText only_admin_message], None)"
    by blast
  from clearall_authorization [of 123456 "sample []" "str_list [''a/b'']" "JStr ''v1''"
      "JStr ''v2''"] admin(1) l1 s1
  have b: "clearall_cmd (sample []) 123456 =
      ([HttpGet (github_file_url (sample [])) (github_headers (sample [])),
        HttpPut (github_file_url (sample [])) (github_headers (sample []))
          (save_payload (JArr []) (JStr ''v1'')),
        ReplyText cleared_message], None)"
    by blast
  from clearall_authorization [of 123456 ?s "JStr ''a/bc/d''" "JStr ''v7''" "JStr ''v2''"]
    admin(2) l2 s2
  have c: "clearall_cmd ?s 123456 =
      ([HttpGet (github_file_url ?s) (github_headers ?s),
        HttpPut (github_file_url ?s) (github_headers ?s) (save_payload (JArr []) (JStr ''v7'')),
        ReplyText cleared_message], None)"
    by blast
  from clearall_authorization [of 123456 "answering 503" _ _ _ "HTTPError 503"] admin(3) l3
  have d: "clearall_cmd (answering 503) 123456 =
      ([HttpGet (github_file_url (answering 503)) (github_headers (answering 503))],
       Some (HTTPError 503))"
    by blast
  from a b c d show ?thesis
    by (simp add: sample_url sample_headers serving_url serving_headers u3 h3 empty_payload)
qed

section \<open>The store: encoding and decoding\<close>

lemma b64_char_code:
  assumes "k < 64"
  shows "(of_char (b64_char k) :: nat) =
     (if k < 26 then k + 65 else if k < 52 then k + 71 else if k < 62 then k - 4
      else if k = 62 then 43 else 47)"
  using assms by (simp add: b64_char_def Let_def)

lemma b64_index_char:
  assumes "k < 64"
  shows "b64_index (b64_char k) = Some k"
proof -
  consider "k < 62" | "k = 62" | "k = 63" using assms by linarith
  then show ?thesis
  proof cases
    case 1
    with b64_char_code [OF assms] show ?thesis
      by (auto simp: b64_index_def Let_def split: if_splits)
  next
    case 2
    then show ?thesis by (simp add: b64_char_def b64_index_def)
  next
    case 3
    then show ?thesis by (simp add: b64_char_def b64_index_def)
  qed
qed

lemma b64_char_not_pad:
  assumes "k < 64"
  shows "b64_char k \<noteq> CHR ''=''"
proof
  assume "b64_char k = CHR ''=''"
  then have "(of_char (b64_char k) :: nat) = 61" by simp
  with b64_char_code [OF assms] show False by (auto split: if_splits)
qed

lemma b64_char_ascii:
  assumes "k < 64"
  shows "(of_char (b64_char k) :: nat) < 128"
  using b64_char_code [OF assms] assms by (auto split: if_splits)

lemma a2b_symbol:
  assumes "k < 64"
  shows "a2b_base64 (b64_char k # cs) q l p =
     (if q = 0 then a2b_base64 cs 1 k 0
      else if q = 1 then emit (l * 4 + k div 16) (a2b_base64 cs 2 (k mod 16) 0)
      else if q = 2 then emit (l * 16 + k div 4) (a2b_base64 cs 3 (k mod 4) 0)
      else emit (l * 64 + k) (a2b_base64 cs 0 0 0))"
  using b64_index_char [OF assms] b64_char_not_pad [OF assms] by simp

lemma of_char_less_256: "(of_char (c :: char) :: nat) < 256"
proof -
  have "(of_char (char_of (of_char c :: nat)) :: nat) = of_char c mod 256"
    by (rule of_char_of)
  then have "(of_char c :: nat) = of_char c mod 256" by simp
  then show ?thesis by (metis mod_less_divisor zero_less_numeral)
qed

lemma sextets:
  fixes x y z :: nat
  assumes "x < 256" "y < 256" "z < 256"
  shows "x div 4 < 64" "(x mod 4) * 16 + y div 16 < 64" "(y mod 16) * 4 + z div 64 < 64"
    "z mod 64 < 64" "(x mod 4) * 16 < 64" "(y mod 16) * 4 < 64"
  using assms by linarith+

lemma octets:
  fixes x y z :: nat
  assumes "y < 256" "z < 256"
  shows "(x div 4) * 4 + ((x mod 4) * 16 + y div 16) div 16 = x"
    and "(((x mod 4) * 16 + y div 16) mod 16) * 16 + ((y mod 16) * 4 + z div 64) div 4 = y"
    and "(((y mod 16) * 4 + z div 64) mod 4) * 64 + z mod 64 = z"
    and "(x div 4) * 4 + ((x mod 4) * 16) div 16 = x"
    and "(((x mod 4) * 16 + y div 16) mod 16) * 16 + ((y mod 16) * 4) div 4 = y"
proof -
  have a: "y div 16 < 16" "z div 64 < 4" using assms by linarith+
  have b: "((x mod 4) * 16 + y div 16) div 16 = x mod 4"
    using a(1) by (simp add: div_mult_self3)
  have c: "((x mod 4) * 16 + y div 16) mod 16 = y div 16"
    using a(1) by simp
  have d: "((y mod 16) * 4 + z div 64) div 4 = y mod 16"
    using a(2) by (simp add: div_mult_self3)
  have e: "((y mod 16) * 4 + z div 64) mod 4 = z div 64"
    using a(2) by simp
  show "(x div 4) * 4 + ((x mod 4) * 16 + y div 16) div 16 = x" unfolding b by simp
  show "(((x mod 4) * 16 + y div 16) mod 16) * 16 + ((y mod 16) * 4 + z div 64) div 4 = y"
    unfolding c d by simp
  show "(((y mod 16) * 4 + z div 64) mod 4) * 64 + z mod 64 = z" unfolding e by simp
  show "(x div 4) * 4 + ((x mod 4) * 16) div 16 = x" by simp
  show "(((x mod 4) * 16 + y div 16) mod 16) * 16 + ((y mod 16) * 4) div 4 = y"
    unfolding c by simp
qed

lemma emit_Inr: "emit n (Inr bs) = Inr (char_of n # bs)"
  by (simp add: emit_def)

lemma a2b_pad:
  "a2b_base64 (CHR ''='' # cs) q l p =
     (if q \<ge> 2 \<and> q + (p + 1) \<ge> 4 then Inr []
      else a2b_base64 cs q l (if q \<ge> 2 then p + 1 else p))"
  by simp

lemma a2b_quad:
  assumes "k1 < 64" "k2 < 64" "k3 < 64" "k4 < 64"
  shows "a2b_base64 (b64_char k1 # b64_char k2 # b64_char k3 # b64_char k4 # cs) 0 0 0 =
     emit (k1 * 4 + k2 div 16) (emit (k2 mod 16 * 16 + k3 div 4)
       (emit (k3 mod 4 * 64 + k4) (a2b_base64 cs 0 0 0)))"
  by (simp add: a2b_symbol assms del: a2b_base64.simps)

lemma a2b_triple:
  assumes "k1 < 64" "k2 < 64" "k3 < 64"
  shows "a2b_base64 (b64_char k1 # b64_char k2 # b64_char k3 # CHR ''='' # cs) 0 0 0 =
     emit (k1 * 4 + k2 div 16) (emit (k2 mod 16 * 16 + k3 div 4) (Inr []))"
  by (simp add: a2b_symbol a2b_pad assms del: a2b_base64.simps)

lemma a2b_pair:
  assumes "k1 < 64" "k2 < 64"
  shows "a2b_base64 (b64_char k1 # b64_char k2 # CHR ''='' # CHR ''='' # cs) 0 0 0 =
     emit (k1 * 4 + k2 div 16) (Inr [])"
  by (simp add: a2b_symbol a2b_pad assms del: a2b_base64.simps)

lemma b64_round_trip: "a2b_base64 (b64encode bs @ ''==='') 0 0 0 = Inr bs"
proof (induction bs rule: b64encode.induct)
  case 1
  show ?case by simp
next
  case (2 a)
  define x where "x = (of_char a :: nat)"
  have x: "x < 256" unfolding x_def by (rule of_char_less_256)
  have "a2b_base64 (b64encode [a] @ ''==='') 0 0 0
      = emit (x div 4 * 4 + (x mod 4 * 16) div 16) (Inr [])"
    by (simp only: b64encode.simps Let_def x_def [symmetric] append.simps
        a2b_pair [OF sextets(1) [OF x x x] sextets(5) [OF x x x]])
  also have "\<dots> = Inr [char_of x]"
    by (simp only: octets(4) [OF x x] emit_Inr)
  finally show ?case by (simp add: x_def)
next
  case (3 a b)
  define x y where "x = (of_char a :: nat)" and "y = (of_char b :: nat)"
  have x: "x < 256" and y: "y < 256" unfolding x_def y_def by (rule of_char_less_256)+
  have "a2b_base64 (b64encode [a, b] @ ''==='') 0 0 0
      = emit (x div 4 * 4 + (x mod 4 * 16 + y div 16) div 16)
          (emit ((x mod 4 * 16 + y div 16) mod 16 * 16 + (y mod 16 * 4) div 4) (Inr []))"
    by (simp only: b64encode.simps Let_def x_def [symmetric] y_def [symmetric] append.simps
        a2b_triple [OF sextets(1) [OF x y y] sextets(2) [OF x y y] sextets(6) [OF x y y]])
  also have "\<dots> = Inr [char_of x, char_of y]"
    by (simp only: octets(1,5) [OF y y] emit_Inr)
  finally show ?case by (simp add: x_def y_def)
next
  case (4 a b c rest)
  define x y z where "x = (of_char a :: nat)" and "y = (of_char b :: nat)"
    and "z = (of_char c :: nat)"
  have x: "x < 256" and y: "y < 256" and z: "z < 256"
    unfolding x_def y_def z_def by (rule of_char_less_256)+
  have "a2b_base64 (b64encode (a # b # c # rest) @ ''==='') 0 0 0
      = emit (x div 4 * 4 + (x mod 4 * 16 + y div 16) div 16)
          (emit ((x mod 4 * 16 + y div 16) mod 16 * 16 + (y mod 16 * 4 + z div 64) div 4)
            (emit ((y mod 16 * 4 + z div 64) mod 4 * 64 + z mod 64)
              (a2b_base64 (b64encode rest @ ''==='') 0 0 0)))"
    by (simp only: b64encode.simps Let_def x_def [symmetric] y_def [symmetric]
        z_def [symmetric] append.simps
        a2b_quad [OF sextets(1) [OF x y z] sextets(2) [OF x y z] sextets(3) [OF x y z]
          sextets(4) [OF x y z]])
  also have "\<dots> = Inr (char_of x # char_of y # char_of z # rest)"
    by (simp only: octets(1-3) [OF y z] emit_Inr 4)
  finally show ?case by (simp add: x_def y_def z_def)
qed

lemma a2b_skip_newlines:
  "a2b_base64 s q l p = a2b_base64 (filter (\<lambda>c. c \<noteq> newline) s) q l p"
proof (induction s arbitrary: q l p)
  case Nil
  show ?case by simp
next
  case (Cons c cs)
  show ?case
  proof (cases "c = newline")
    case True
    have "b64_index newline = None" by (simp add: b64_index_def newline_def)
    moreover have "newline \<noteq> CHR ''=''" by (simp add: newline_def)
    ultimately have "a2b_base64 (c # cs) q l p = a2b_base64 cs q l p"
      using True by simp
    with Cons [of q l p] True show ?thesis by simp
  next
    case False
    have "a2b_base64 (c # cs) q l p = a2b_base64 (c # filter (\<lambda>c. c \<noteq> newline) cs) q l p"
      by (simp add: Cons [of _ _ _] split: option.split)
    with False show ?thesis by simp
  qed
qed

lemma b64encode_ascii: "c \<in> set (b64encode bs) \<Longrightarrow> (of_char c :: nat) < 128"
proof (induction bs arbitrary: c rule: b64encode.induct)
  case 1
  then show ?case by simp
next
  case (2 a)
  then show ?case by (auto simp: Let_def intro!: b64_char_ascii sextets of_char_less_256)
next
  case (3 a b)
  then show ?case by (auto simp: Let_def intro!: b64_char_ascii sextets of_char_less_256)
next
  case (4 a b c' rest)
  then show ?case by (auto simp: Let_def intro!: b64_char_ascii sextets of_char_less_256)
qed

lemma b64decode_stored:
  assumes "filter (\<lambda>c. c \<noteq> newline) stored = b64encode bs"
  shows "b64decode (stored @ ''==='') = Inr bs"
proof -
  have ascii: "(of_char c :: nat) < 128" if "c \<in> set (stored @ ''==='')" for c
  proof (cases "c = newline")
    case True
    then show ?thesis by (simp add: newline_def)
  next
    case False
    with that have "c \<in> set (filter (\<lambda>c. c \<noteq> newline) stored) \<or> c = CHR ''=''" by auto
    then show ?thesis using assms b64encode_ascii [of c bs] by auto
  qed
  have "a2b_base64 (stored @ ''==='') 0 0 0
      = a2b_base64 (filter (\<lambda>c. c \<noteq> newline) (stored @ ''==='')) 0 0 0"
    by (rule a2b_skip_newlines)
  also have "filter (\<lambda>c. c \<noteq> newline) (stored @ ''==='') = b64encode bs @ ''==='' "
    using assms by (simp add: newline_def)
  also have "a2b_base64 (b64encode bs @ ''==='') 0 0 0 = Inr bs" by (rule b64_round_trip)
  finally have "a2b_base64 (stored @ ''==='') 0 0 0 = Inr bs" .
  moreover have "\<not> (\<exists>c \<in> set (stored @ ''===''). (of_char c :: nat) \<ge> 0x80)"
    using ascii by (auto simp: not_le)
  ultimately show ?thesis by (simp only: b64decode_def if_False)
qed

lemma utf8_valid_ascii: "\<forall>b\<in>set bs. b < 128 \<Longrightarrow> utf8_valid bs"
  by (induction bs) auto

lemma bytes_decode_ascii:
  "\<forall>c\<in>set s. (of_char c :: nat) < 128 \<Longrightarrow> bytes_decode s = Inr s"
  by (simp add: bytes_decode_def utf8_valid_ascii)

lemma hex_value_digit:
  assumes "d < 16"
  shows "hex_value (hex_digit d) = Some d"
proof -
  from assms have "d = 0 \<or> d = 1 \<or> d = 2 \<or> d = 3 \<or> d = 4 \<or> d = 5 \<or> d = 6 \<or> d = 7
      \<or> d = 8 \<or> d = 9 \<or> d = 10 \<or> d = 11 \<or> d = 12 \<or> d = 13 \<or> d = 14 \<or> d = 15"
    by presburger
  then show ?thesis
    by (elim disjE) (simp_all add: hex_digit_def hex_value_def index_of_def)
qed

lemma hex4_value_hex4:
  assumes "n < 256"
  shows "hex4_value (hex4 n @ rest) = Some n"
proof -
  have z: "n div 4096 = 0" "n div 256 = 0" using assms by simp_all
  have d: "n div 16 < 16" using assms by linarith
  have m: "n mod 16 < 16" by simp
  have h0: "hex_digit 0 = CHR ''0''" by (simp add: hex_digit_def)
  have v0: "hex_value (CHR ''0'') = Some 0" by (simp add: hex_value_def index_of_def)
  have h3: "hex_digit n = hex_digit (n mod 16)" by (simp add: hex_digit_def)
  have "hex4_value (hex4 n @ rest)
      = Some (((0 * 16 + 0) * 16 + n div 16) * 16 + n mod 16)"
    unfolding hex4_def z h0
    by (subst h3) (simp add: v0 hex_value_digit [OF d] hex_value_digit [OF m])
  then show ?thesis by simp
qed

lemma hex_digit_ascii: "(of_char (hex_digit n) :: nat) < 128"
proof -
  have "hex_digit n \<in> set ''0123456789abcdef''"
    unfolding hex_digit_def by (rule nth_mem) simp
  then show ?thesis by auto
qed

lemma u_escape_ascii: "c \<in> set (u_escape n) \<Longrightarrow> (of_char c :: nat) < 128"
  using hex_digit_ascii
  by (auto simp: u_escape_def hex4_def backslash_def Let_def split: if_splits)

lemma escape_ascii_char_ascii:
  "(of_char c :: nat) < 128 \<Longrightarrow> d \<in> set (escape_ascii_char c) \<Longrightarrow> (of_char d :: nat) < 128"
  using u_escape_ascii [of d "of_char c"]
  by (auto simp: escape_ascii_char_def backslash_def dquote_def split: if_splits)

lemma escape_str_ascii: "d \<in> set (escape_str s) \<Longrightarrow> (of_char d :: nat) < 128"
proof (induction s arbitrary: d rule: escape_str.induct)
  case 1
  then show ?case by simp
next
  case (2 c cs)
  show ?case
  proof (cases "(of_char c :: nat) < 0x80")
    case True
    with 2 show ?thesis by (auto dest: escape_ascii_char_ascii)
  next
    case False
    with 2 show ?thesis by (auto simp: Let_def dest: u_escape_ascii)
  qed
qed

lemma prepend_Inr: "prepend cs (Inr (s, rest)) = Inr (cs @ s, rest)"
  by (simp add: prepend_def)

lemma scan_u_hex4:
  assumes "n < 128"
  shows "scan_u (hex4 n @ t) = Some ([char_of n], 4)"
proof -
  from assms have "n < 256" by simp
  then have "hex4_value (hex4 n @ t) = Some n" by (rule hex4_value_hex4)
  with assms show ?thesis by (simp add: scan_u_def utf8_encode_def)
qed

lemma scan_escaped_char:
  assumes "(of_char c :: nat) < 128"
  shows "scanstring (escape_ascii_char c @ t) = prepend [c] (scanstring t)"
proof -
  consider (bs) "c = backslash" | (dq) "c = dquote"
    | (b) "c = CHR 0x08" | (f) "c = CHR 0x0C" | (n) "c = CHR 0x0A" | (r) "c = CHR 0x0D"
    | (t) "c = CHR 0x09"
    | (u) "c \<noteq> backslash" "c \<noteq> dquote" "c \<noteq> CHR 0x08" "c \<noteq> CHR 0x0C" "c \<noteq> CHR 0x0A"
        "c \<noteq> CHR 0x0D" "c \<noteq> CHR 0x09" "(of_char c :: nat) < 0x20 \<or> (of_char c :: nat) = 0x7F"
    | (plain) "c \<noteq> backslash" "c \<noteq> dquote" "\<not> (of_char c :: nat) < 0x20"
        "(of_char c :: nat) \<noteq> 0x7F"
    by blast
  then show ?thesis
  proof cases
    case bs
    then show ?thesis
      by (simp add: escape_ascii_char_def unescape_def backslash_def dquote_def)
  next
    case dq
    then show ?thesis
      by (simp add: escape_ascii_char_def unescape_def backslash_def dquote_def)
  next
    case b
    then show ?thesis
      by (simp add: escape_ascii_char_def unescape_def backslash_def dquote_def)
  next
    case f
    then show ?thesis
      by (simp add: escape_ascii_char_def unescape_def backslash_def dquote_def)
  next
    case n
    then show ?thesis
      by (simp add: escape_ascii_char_def unescape_def backslash_def dquote_def)
  next
    case r
    then show ?thesis
      by (simp add: escape_ascii_char_def unescape_def backslash_def dquote_def)
  next
    case t
    then show ?thesis
      by (simp add: escape_ascii_char_def unescape_def backslash_def dquote_def)
  next
    case u
    have e: "escape_ascii_char c = [backslash, CHR ''u''] @ hex4 (of_char c)"
      using u assms by (simp add: escape_ascii_char_def u_escape_def)
    have "scanstring ([backslash, CHR ''u''] @ hex4 (of_char c) @ t)
        = prepend [char_of (of_char c :: nat)] (scanstring (drop 4 (hex4 (of_char c) @ t)))"
      using scan_u_hex4 [OF assms, of t] by (simp add: backslash_def dquote_def)
    also have "drop 4 (hex4 (of_char c) @ t) = t" by (simp add: hex4_def)
    finally show ?thesis by (simp add: e)
  next
    case plain
    from plain(3) have "c \<noteq> CHR 0x08" "c \<noteq> CHR 0x0C" "c \<noteq> CHR 0x0A" "c \<noteq> CHR 0x0D"
      "c \<noteq> CHR 0x09" by auto
    with plain show ?thesis by (simp add: escape_ascii_char_def)
  qed
qed

lemma scanstring_escape:
  assumes "\<forall>c\<in>set s. (of_char c :: nat) < 128"
  shows "scanstring (escape_str s @ dquote # rest) = Inr (s, rest)"
  using assms
proof (induction s)
  case Nil
  show ?case by simp
next
  case (Cons c cs)
  then have c: "(of_char c :: nat) < 128" and IH: "scanstring (escape_str cs @ dquote # rest) = Inr (cs, rest)"
    by simp_all
  have "scanstring (escape_str (c # cs) @ dquote # rest)
      = scanstring (escape_ascii_char c @ (escape_str cs @ dquote # rest))"
    using c by simp
  also have "\<dots> = prepend [c] (scanstring (escape_str cs @ dquote # rest))"
    using c by (rule scan_escaped_char)
  finally show ?case by (simp add: IH prepend_Inr)
qed

lemma skip_ws_indent: "skip_ws (newline_indent k @ t) = skip_ws t"
proof -
  have "dropWhile is_ws (replicate n (CHR '' '') @ t) = dropWhile is_ws t" for n
    by (induction n) (simp_all add: is_ws_def)
  then show ?thesis by (simp add: skip_ws_def newline_indent_def newline_def is_ws_def)
qed

lemma skip_ws_id: "\<not> is_ws c \<Longrightarrow> skip_ws (c # t) = c # t"
  by (simp add: skip_ws_def)

lemma not_ws: "\<not> is_ws dquote" "\<not> is_ws (CHR '']'')" "\<not> is_ws (CHR '','')" "\<not> is_ws (CHR ''}'')"
  "\<not> is_ws (CHR '':'')" "\<not> is_ws (CHR ''['')" "\<not> is_ws (CHR ''{'')"
  by (simp_all add: is_ws_def dquote_def)

lemma parse_string_value:
  assumes "\<forall>c\<in>set s. (of_char c :: nat) < 128"
  shows "parse_value fl (Suc n) (encode_str s @ t) = Inr (JStr s, t)"
  using scanstring_escape [OF assms, of t] by (simp add: encode_str_def)

lemma join_encode_head:
  "\<exists>u. join sep (map encode_str (x # xs)) = dquote # u"
  by (cases xs) (simp_all add: encode_str_def)

lemma parse_array_items:
  assumes "\<forall>s\<in>set (x # xs). \<forall>c\<in>set s. (of_char c :: nat) < 128"
    and "length xs + 1 < n"
  shows "parse_array fl n acc
           (join ('','' @ newline_indent k) (map encode_str (x # xs)) @
            newline_indent j @ '']'' @ rest)
         = Inr (JArr (acc @ map JStr (x # xs)), rest)"
  using assms
proof (induction xs arbitrary: x acc n)
  case Nil
  then obtain m where n: "n = Suc (Suc m)" by (cases n; cases "n - 1") auto
  from Nil have x: "\<forall>c\<in>set x. (of_char c :: nat) < 128" by simp
  have "skip_ws (newline_indent j @ '']'' @ rest) = CHR '']'' # rest"
    by (simp add: skip_ws_indent skip_ws_id not_ws)
  then show ?case
    by (simp add: n parse_string_value [OF x] del: parse_value.simps)
next
  case (Cons y ys)
  then obtain m where n: "n = Suc (Suc m)" by (cases n; cases "n - 1") auto
  from Cons.prems have x: "\<forall>c\<in>set x. (of_char c :: nat) < 128"
    and ys: "\<forall>s\<in>set (y # ys). \<forall>c\<in>set s. (of_char c :: nat) < 128"
    and len: "length ys + 1 < Suc m" by (simp_all add: n)
  let ?tail = "join ('','' @ newline_indent k) (map encode_str (y # ys)) @
      newline_indent j @ '']'' @ rest"
  obtain u where u: "join ('','' @ newline_indent k) (map encode_str (y # ys)) = dquote # u"
    using join_encode_head by blast
  have sk: "skip_ws (newline_indent k @ ?tail) = ?tail"
    by (simp only: skip_ws_indent u) (simp add: skip_ws_id not_ws)
  have "parse_array fl n acc
      (join ('','' @ newline_indent k) (map encode_str (x # y # ys)) @
        newline_indent j @ '']'' @ rest)
      = parse_array fl (Suc (Suc m)) acc (encode_str x @ CHR '','' # newline_indent k @ ?tail)"
    by (simp add: n)
  also have "\<dots> = parse_array fl (Suc m) (acc @ [JStr x]) ?tail"
    using sk by (simp add: parse_string_value [OF x] skip_ws_id not_ws del: parse_value.simps)
  also have "\<dots> = Inr (JArr ((acc @ [JStr x]) @ map JStr (y # ys)), rest)"
    using ys len by (rule Cons.IH)
  finally show ?case by simp
qed

lemma length_join_encode: "length xs \<le> length (join sep (map encode_str xs))"
  by (induction xs rule: induct_list012) (simp_all add: encode_str_def)

lemma dumps_array:
  "dumps_at 1 (JArr (map JStr xs)) =
     (if xs = [] then ''[]''
      else ''['' @ newline_indent 2 @ join ('','' @ newline_indent 2) (map encode_str xs) @
           newline_indent 1 @ '']'')"
  by (simp add: comp_def numeral_2_eq_2)

lemma dumps_document:
  "json_dumps_indent2 (registry_document (str_list xs)) =
     ''{'' @ newline_indent 1 @ encode_str ''repos'' @ '': '' @
     dumps_at 1 (JArr (map JStr xs)) @ newline_indent 0 @ ''}''"
  by (simp add: json_dumps_indent2_def registry_document_def del: dumps_at.simps(5))

lemma parse_array_text:
  assumes "\<forall>s\<in>set xs. \<forall>c\<in>set s. (of_char c :: nat) < 128"
    and "length xs + 2 < n"
  shows "parse_value fl n (dumps_at 1 (JArr (map JStr xs)) @ rest) = Inr (JArr (map JStr xs), rest)"
proof -
  from assms(2) obtain m where n: "n = Suc m" and m: "length xs + 1 < m" by (cases n) auto
  show ?thesis
  proof (cases xs)
    case Nil
    have "parse_value fl (Suc m) (''[]'' @ rest) = Inr (JArr [], rest)"
      by (simp add: skip_ws_id not_ws dquote_def)
    moreover have "dumps_at 1 (JArr []) = ''[]''" by simp
    ultimately show ?thesis by (simp only: Nil n list.map)
  next
    case (Cons y ys)
    define w2 w1 where "w2 = newline_indent 2" and "w1 = newline_indent 1"
    define items where "items = join ('','' @ w2) (map encode_str (y # ys))"
    obtain u where u: "items = dquote # u"
      using join_encode_head unfolding items_def by blast
    have ws: "skip_ws (w2 @ t) = skip_ws t" for t
      unfolding w2_def by (rule skip_ws_indent)
    have d: "dumps_at 1 (JArr (map JStr xs)) @ rest = CHR ''['' # w2 @ items @ w1 @ '']'' @ rest"
      unfolding items_def w2_def w1_def Cons by (simp only: dumps_array) simp
    have "parse_value fl (Suc m) (CHR ''['' # w2 @ (dquote # u) @ w1 @ '']'' @ rest)
        = parse_array fl m [] ((dquote # u) @ w1 @ '']'' @ rest)"
      by (simp add: ws skip_ws_id not_ws) (simp add: dquote_def)
    also have "\<dots> = Inr (JArr ([] @ map JStr (y # ys)), rest)"
      unfolding u [symmetric] items_def w2_def w1_def
      using assms(1) m unfolding Cons by (intro parse_array_items) simp_all
    finally have f: "parse_value fl (Suc m) (CHR ''['' # w2 @ (dquote # u) @ w1 @ '']'' @ rest)
        = Inr (JArr ([] @ map JStr (y # ys)), rest)" .
    show ?thesis unfolding n d u using f by (simp only: Cons append_Nil)
  qed
qed

lemma json_round_trip:
  assumes "\<forall>s\<in>set xs. ascii s"
  shows "json_loads fl (json_dumps_indent2 (registry_document (str_list xs)))
     = Inr (registry_document (str_list xs))"
proof -
  define arr where "arr = dumps_at 1 (JArr (map JStr xs))"
  define w1 w0 where "w1 = newline_indent 1" and "w0 = newline_indent 0"
  define key where "key = escape_str ''repos''"
  let ?text = "json_dumps_indent2 (registry_document (str_list xs))"
  have shape: "?text = CHR ''{'' # w1 @ dquote # key @ dquote # CHR '':'' # CHR '' '' # arr @ w0 @ ''}''"
    by (simp only: dumps_document arr_def w1_def w0_def key_def encode_str_def) simp
  from assms have a: "\<forall>s\<in>set xs. \<forall>c\<in>set s. (of_char c :: nat) < 128" by (simp add: ascii_def)
  have ws: "skip_ws (w1 @ t) = skip_ws t" "skip_ws (w0 @ t) = skip_ws t" for t
    unfolding w1_def w0_def by (rule skip_ws_indent)+
  have "length xs \<le> length arr"
    using length_join_encode [of xs "'','' @ newline_indent 2"]
    by (cases xs) (simp_all only: arr_def dumps_array, simp_all)
  then have "length xs + 4 < length ?text" by (simp add: shape)
  then obtain n where n: "length ?text = Suc n" and big: "length xs + 2 < n"
    by (cases "length ?text") auto
  from big obtain k where k: "n = Suc k" and bigk: "length xs + 2 \<le> k" by (cases n) auto
  have scan: "scanstring (key @ dquote # t) = Inr (''repos'', t)" for t
    unfolding key_def by (rule scanstring_escape) simp
  have arr_nonws: "skip_ws (arr @ t) = arr @ t" for t
    by (cases xs) (simp_all only: arr_def dumps_array, simp_all add: skip_ws_id not_ws)
  have parr: "parse_value fl (Suc k) (arr @ t) = Inr (JArr (map JStr xs), t)" for t
    unfolding arr_def using a bigk by (intro parse_array_text) simp_all
  have obj: "parse_object fl (Suc (Suc k)) []
      (dquote # key @ dquote # CHR '':'' # CHR '' '' # arr @ w0 @ ''}'')
      = Inr (JObj [(''repos'', JArr (map JStr xs))], [])"
  proof -
    have s2: "skip_ws (CHR '' '' # arr @ w0 @ ''}'') = arr @ w0 @ ''}''"
      using arr_nonws [of "w0 @ ''}''"] by (simp add: skip_ws_def is_ws_def)
    have s3: "skip_ws (w0 @ ''}'') = ''}''"
      by (simp add: ws skip_ws_id not_ws)
    show ?thesis
      by (simp add: scan skip_ws_id not_ws s2 parr s3 dict_set_def del: parse_value.simps)
  qed
  have "parse_value fl (Suc (Suc (Suc k))) ?text = Inr (JObj [(''repos'', JArr (map JStr xs))], [])"
    unfolding shape
    using obj by (simp add: ws skip_ws_id not_ws del: parse_object.simps) (simp add: dquote_def)
  moreover have "skip_ws ?text = ?text"
    unfolding shape by (simp add: skip_ws_id not_ws)
  ultimately have "parse_value fl (Suc (length ?text)) (skip_ws ?text)
      = Inr (JObj [(''repos'', JArr (map JStr xs))], [])"
    by (simp only: n k)
  then show ?thesis
    by (simp add: json_loads_def registry_document_def skip_ws_def)
qed


lemma join_ascii:
  assumes "\<forall>c\<in>set sep. (of_char c :: nat) < 128"
    and "\<forall>x\<in>set xs. \<forall>c\<in>set x. (of_char c :: nat) < 128"
  shows "\<forall>c\<in>set (join sep xs). (of_char c :: nat) < 128"
  using assms by (induction sep xs rule: join.induct) auto

lemma encode_str_ascii: "\<forall>c\<in>set (encode_str s). (of_char c :: nat) < 128"
  using escape_str_ascii [of _ s] by (auto simp: encode_str_def dquote_def)

lemma newline_indent_ascii: "\<forall>c\<in>set (newline_indent k). (of_char c :: nat) < 128"
  by (auto simp: newline_indent_def newline_def)

lemma dumps_document_ascii:
  "\<forall>c\<in>set (json_dumps_indent2 (registry_document (str_list xs))). (of_char c :: nat) < 128"
proof -
  have sep: "\<forall>c\<in>set ('','' @ newline_indent 2). (of_char c :: nat) < 128"
    using newline_indent_ascii [of 2] by auto
  have items: "\<forall>c\<in>set (join ('','' @ newline_indent 2) (map encode_str xs)). (of_char c :: nat) < 128"
    using sep by (rule join_ascii) (use encode_str_ascii in auto)
  have arr: "\<forall>c\<in>set (dumps_at 1 (JArr (map JStr xs))). (of_char c :: nat) < 128"
    using items newline_indent_ascii [of 2] newline_indent_ascii [of 1]
    by (simp only: dumps_array) auto
  show ?thesis
    using arr encode_str_ascii [of "''repos''"] newline_indent_ascii [of 1]
      newline_indent_ascii [of 0]
    by (simp only: dumps_document) auto
qed

lemma decode_stored_document:
  assumes ids: "\<forall>s\<in>set xs. ascii s"
    and c: "getitem doc ''content'' = Inr (JStr stored)"
    and stored: "filter (\<lambda>c. c \<noteq> newline) stored =
      b64encode (json_dumps_indent2 (registry_document (str_list xs)))"
  shows "decode_document fl doc = Inr (registry_document (str_list xs))"
proof -
  let ?text = "json_dumps_indent2 (registry_document (str_list xs))"
  from stored have "b64decode (stored @ ''==='') = Inr ?text" by (rule b64decode_stored)
  moreover have "bytes_decode ?text = Inr ?text"
    using dumps_document_ascii by (rule bytes_decode_ascii)
  moreover have "json_loads fl ?text = Inr (registry_document (str_list xs))"
    using ids by (rule json_round_trip)
  ultimately show ?thesis
    by (simp add: decode_document_def then_do_def c str_concat_def)
qed

lemma canonical_ascii: "canonical p \<Longrightarrow> ascii (repo_name p)"
proof -
  have "(of_char c :: nat) < 128" if "repo_char c" for c
    using that by (auto simp: repo_char_def)
  then show "canonical p \<Longrightarrow> ascii (repo_name p)"
    by (auto simp: canonical_def ascii_def repo_name_def)
qed



section \<open>The store: the claims\<close>

text \<open>
  Claim C6. \<^verbatim>\<open>load_tracked\<close> sends one request, the \<^verbatim>\<open>GET\<close> of the document, and never a
  second one. On the answer 404 it returns the empty list and no token. On any other
  status from 400 to 599 it raises the HTTP error of that status; a transport failure of
  the request is raised as well. On any other answer it decodes the document and returns
  what stands under \<^verbatim>\<open>repos\<close> there, as it is (the empty list when the key is missing),
  together with the token of the answer. In particular, when the content served is the
  base64 text, whole or broken into lines, of the JSON document holding a list of
  identifiers, that list is returned.
\<close>

theorem load_tracked_cases:
  "fst (load_tracked e) = [HttpGet (github_file_url e) (github_headers e)]
   \<and> (http_get e (github_file_url e) (github_headers e) = Inl m \<longrightarrow>
        snd (load_tracked e) = Inl (RequestException m))
   \<and> (http_get e (github_file_url e) (github_headers e) = Inr r \<and> status_code r = 404 \<longrightarrow>
        snd (load_tracked e) = Inr (JArr [], JNull))
   \<and> (http_get e (github_file_url e) (github_headers e) = Inr r
        \<and> 400 \<le> status_code r \<and> status_code r < 600 \<and> status_code r \<noteq> 404 \<longrightarrow>
        snd (load_tracked e) = Inl (HTTPError (status_code r)))
   \<and> (http_get e (github_file_url e) (github_headers e) = Inr r
        \<and> \<not> (400 \<le> status_code r \<and> status_code r < 600)
        \<and> body r = Some doc \<and> getitem doc ''content'' = Inr (JStr stored)
        \<and> getitem doc ''sha'' = Inr token
        \<and> (\<forall>s\<in>set ids. ascii s)
        \<and> filter (\<lambda>c. c \<noteq> newline) stored =
            b64encode (json_dumps_indent2 (JObj [(''repos'', str_list ids)])) \<longrightarrow>
        snd (load_tracked e) = Inr (str_list ids, token))
   \<and> (http_get e (github_file_url e) (github_headers e) = Inr r
        \<and> \<not> (400 \<le> status_code r \<and> status_code r < 600)
        \<and> body r = Some doc \<and> decode_document (float_repr e) doc = Inr (JObj kvs)
        \<and> getitem doc ''sha'' = Inr token \<longrightarrow>
        snd (load_tracked e) =
          Inr (case dict_get kvs ''repos'' of None \<Rightarrow> JArr [] | Some v \<Rightarrow> v, token))"
proof -
  let ?g = "http_get e (github_file_url e) (github_headers e)"
  have a: "fst (load_tracked e) = [HttpGet (github_file_url e) (github_headers e)]"
    by (simp add: load_tracked_def Let_def)
  have b: "?g = Inl m \<longrightarrow> snd (load_tracked e) = Inl (RequestException m)"
    by (simp add: load_tracked_def Let_def)
  have c: "?g = Inr r \<and> status_code r = 404 \<longrightarrow> snd (load_tracked e) = Inr (JArr [], JNull)"
    by (simp add: load_tracked_def Let_def)
  have d: "?g = Inr r \<and> 400 \<le> status_code r \<and> status_code r < 600 \<and> status_code r \<noteq> 404 \<longrightarrow>
      snd (load_tracked e) = Inl (HTTPError (status_code r))"
    by (simp add: load_tracked_def Let_def raise_for_status_def)
  have g: "snd (load_tracked e) =
      Inr (case dict_get kvs ''repos'' of None \<Rightarrow> JArr [] | Some v \<Rightarrow> v, token)"
    if "?g = Inr r" and "\<not> (400 \<le> status_code r \<and> status_code r < 600)" and "body r = Some doc"
      and "decode_document (float_repr e) doc = Inr (JObj kvs)" and "getitem doc ''sha'' = Inr token"
    for kvs
    using load_tracked_present [OF that] by simp
  have f: "snd (load_tracked e) = Inr (str_list ids, token)"
    if r: "?g = Inr r" "\<not> (400 \<le> status_code r \<and> status_code r < 600)" "body r = Some doc"
      and content: "getitem doc ''content'' = Inr (JStr stored)"
      and token: "getitem doc ''sha'' = Inr token"
      and ids: "\<forall>s\<in>set ids. ascii s"
      and stored: "filter (\<lambda>c. c \<noteq> newline) stored =
        b64encode (json_dumps_indent2 (JObj [(''repos'', str_list ids)]))"
  proof -
    from stored have "filter (\<lambda>c. c \<noteq> newline) stored =
        b64encode (json_dumps_indent2 (registry_document (str_list ids)))"
      by (simp add: registry_document_def)
    with ids content
    have "decode_document (float_repr e) doc = Inr (registry_document (str_list ids))"
      by (rule decode_stored_document)
    then have "decode_document (float_repr e) doc = Inr (JObj [(''repos'', str_list ids)])"
      by (simp add: registry_document_def)
    from g [OF r this token] show ?thesis by (simp add: dict_get_def)
  qed
  from a b c d f g show ?thesis by blast
qed

theorem load_tracked_cases_witness:
  "load_tracked (sample []) =
     ([HttpGet ''https://api.github.com/repos/owner/tracker/contents/data/tracked.json''
         [(''Authorization'', ''token secret'')]],
      Inr (str_list [''a/b''], JStr ''v1''))
   \<and> load_tracked (serving ''eyJyZXBvcyI6ICJhL2JjL2QifQ=='' (JStr ''v7'')) =
     ([HttpGet ''https://api.github.com/repos/owner/tracker/contents/data/tracked.json''
         [(''Authorization'', ''token secret'')]],
      Inr (JStr ''a/bc/d'', JStr ''v7''))
   \<and> load_tracked (answering 404) =
     ([HttpGet ''https://api.github.com/repos/owner/tracker/contents/data/tracked.json''
         [(''Authorization'', ''token secret'')]],
      Inr (JArr [], JNull))
   \<and> load_tracked (answering 503) =
     ([HttpGet ''https://api.github.com/repos/owner/tracker/contents/data/tracked.json''
         [(''Authorization'', ''token secret'')]],
      Inl (HTTPError 503))"
proof -
  let ?s = "serving ''eyJyZXBvcyI6ICJhL2JjL2QifQ=='' (JStr ''v7'')"
  let ?sdoc = "JObj [(''content'', JStr ''eyJyZXBvcyI6ICJhL2JjL2QifQ==''), (''sha'', JStr ''v7'')]"
  have url: "github_file_url (answering n) =
      ''https://api.github.com/repos/owner/tracker/contents/data/tracked.json''"
    and hdr: "github_headers (answering n) = [(''Authorization'', ''token secret'')]" for n
    by (simp_all add: github_file_url_def github_headers_def answering_def sample_env_def
        DATA_PATH_def)
  have g: "http_get (answering n) (github_file_url (answering n)) (github_headers (answering n))
      = Inr \<lparr>status_code = n, body = None\<rparr>" for n
    by (simp add: answering_def sample_env_def)
  have gs: "http_get (sample []) (github_file_url (sample [])) (github_headers (sample []))
      = Inr \<lparr>status_code = 200, body = Some sample_document\<rparr>"
    by (simp add: sample_url sample_headers) (simp add: sample_def sample_env_def sample_get_def)
  have content: "getitem sample_document ''content''
      = Inr (JStr ''ewogICJyZXBvcyI6IFsKICAgICJhL2IiCiAgXQp9'')"
    and sha: "getitem sample_document ''sha'' = Inr (JStr ''v1'')"
    by (simp_all add: getitem_def sample_document_def dict_get_def)
  have ids: "\<forall>s\<in>set [''a/b'']. ascii s" by (simp add: ascii_def)
  have "b64encode (json_dumps_indent2 (JObj [(''repos'', str_list [''a/b''])]))
      = ''ewogICJyZXBvcyI6IFsKICAgICJhL2IiCiAgXQp9''"
    by (simp add: newline_def json_dumps_indent2_def newline_indent_def b64_char_def
        char_of_eq_iff encode_str_def dquote_def escape_ascii_char_def backslash_def
        replicate_numeral_unfold)
  then have stored: "filter (\<lambda>c. c \<noteq> newline) ''ewogICJyZXBvcyI6IFsKICAgICJhL2IiCiAgXQp9''
      = b64encode (json_dumps_indent2 (JObj [(''repos'', str_list [''a/b''])]))"
    by (simp add: newline_def)
  have gv: "http_get ?s (github_file_url ?s) (github_headers ?s)
      = Inr \<lparr>status_code = 200, body = Some ?sdoc\<rparr>"
    by (simp add: serving_def sample_env_def)
  have shav: "getitem ?sdoc ''sha'' = Inr (JStr ''v7'')"
    by (simp add: getitem_def dict_get_def)
  from load_tracked_cases [of "sample []" _ "\<lparr>status_code = 200, body = Some sample_document\<rparr>"
      sample_document "''ewogICJyZXBvcyI6IFsKICAgICJhL2IiCiAgXQp9''" "JStr ''v1''" "[''a/b'']"]
    gs content sha ids stored
  have a: "fst (load_tracked (sample [])) =
        [HttpGet (github_file_url (sample [])) (github_headers (sample []))]
      \<and> snd (load_tracked (sample [])) = Inr (str_list [''a/b''], JStr ''v1'')"
    by simp
  from load_tracked_cases [of ?s _ "\<lparr>status_code = 200, body = Some ?sdoc\<rparr>" ?sdoc _ "JStr ''v7''"
      _ "[(''repos'', JStr ''a/bc/d'')]"]
    gv shav string_document_decode [of "float_repr ?s" "JStr ''v7''"]
  have v: "fst (load_tracked ?s) = [HttpGet (github_file_url ?s) (github_headers ?s)]
      \<and> snd (load_tracked ?s) = Inr (JStr ''a/bc/d'', JStr ''v7'')"
    by (simp add: dict_get_def)
  from load_tracked_cases [of "answering 404" _ "\<lparr>status_code = 404, body = None\<rparr>"] g [of 404]
  have b: "fst (load_tracked (answering 404)) =
        [HttpGet (github_file_url (answering 404)) (github_headers (answering 404))]
      \<and> snd (load_tracked (answering 404)) = Inr (JArr [], JNull)"
    by simp
  from load_tracked_cases [of "answering 503" _ "\<lparr>status_code = 503, body = None\<rparr>"] g [of 503]
  have c: "fst (load_tracked (answering 503)) =
        [HttpGet (github_file_url (answering 503)) (github_headers (answering 503))]
      \<and> snd (load_tracked (answering 503)) = Inl (HTTPError 503)"
    by simp
  from a v b c show ?thesis
    by (simp add: prod_eq_iff url hdr sample_url sample_headers serving_url serving_headers)
qed



end
